theory Spec2Isabelle
  imports Main "HOL-Library.Sublist"
begin

section \<open>NaNoGenMoGen: the yearly bootstrap tool\<close>

text \<open>
  A shallow embedding of \<^verbatim>\<open>nanogenmogen.py\<close>. Python strings are lists of
  characters (the program compares characters for equality only, so the size of the
  alphabet plays no part), Python integers are \<^typ>\<open>int\<close>, the memoised year functions
  pass their cache explicitly, and the command runner passes a log of what it printed
  and ran together with the state of the outside world. A command that exits non-zero
  makes \<^verbatim>\<open>subprocess.run(..., check=True)\<close> raise; the raise is an error value.
  The contents of files are arguments and results; changing the directory, creating
  scratch directories and parsing the command line are left out.
\<close>

subsection \<open>Python library functions the program calls\<close>

text \<open>
  Formatting an integer inside an f-string gives its decimal digits, with a leading
  minus sign for a negative number.
\<close>

definition digit_char :: "nat \<Rightarrow> char" where
  "digit_char d = ''0123456789'' ! d"

fun str_nat :: "nat \<Rightarrow> string" where
  "str_nat n = (if n < 10 then [digit_char n] else str_nat (n div 10) @ [digit_char (n mod 10)])"

declare str_nat.simps [simp del]

definition str_int :: "int \<Rightarrow> string" where
  "str_int i = (if i < 0 then CHR ''-'' # str_nat (nat (- i)) else str_nat (nat i))"

text \<open>
  \<^verbatim>\<open>s.replace(old, new)\<close>: every occurrence of \<open>old\<close> found by scanning from the
  left is replaced, and the scan goes on right after the replaced occurrence. With an
  empty \<open>old\<close> Python puts \<open>new\<close> before every character and at the end.
\<close>

function replace_all :: "string \<Rightarrow> string \<Rightarrow> string \<Rightarrow> string" where
  "replace_all [] old new = []"
| "replace_all (c # cs) old new =
     (if old \<noteq> [] \<and> prefix old (c # cs)
      then new @ replace_all (drop (length old) (c # cs)) old new
      else c # replace_all cs old new)"
  by pat_completeness auto
termination
  by (relation "measure (\<lambda>(s, old, new). length s)") auto

definition replace :: "string \<Rightarrow> string \<Rightarrow> string \<Rightarrow> string" where
  "replace s old new =
     (if old = [] then new @ concat (map (\<lambda>c. c # new) s) else replace_all s old new)"

text \<open>
  \<^verbatim>\<open>s.splitlines()\<close>: the line boundaries among the characters below 256 are
  LF, CR, CR LF, VT, FF, FS, GS, RS and NEL; a final line is dropped when it is empty.
\<close>

definition is_linebreak :: "char \<Rightarrow> bool" where
  "is_linebreak c \<longleftrightarrow>
     c \<in> set [CHR 0x0A, CHR 0x0D, CHR 0x0B, CHR 0x0C, CHR 0x1C, CHR 0x1D, CHR 0x1E, CHR 0x85]"

definition after_break :: "char \<Rightarrow> string \<Rightarrow> string" where
  "after_break c cs =
     (case cs of d # ds \<Rightarrow> if c = CHR 0x0D \<and> d = CHR 0x0A then ds else cs | [] \<Rightarrow> cs)"

function splitlines_from :: "string \<Rightarrow> string \<Rightarrow> string list" where
  "splitlines_from cur [] = (if cur = [] then [] else [cur])"
| "splitlines_from cur (c # cs) =
     (if is_linebreak c then cur # splitlines_from [] (after_break c cs)
      else splitlines_from (cur @ [c]) cs)"
  by pat_completeness auto
termination
  by (relation "measure (\<lambda>(cur, s). length s)")
     (auto simp: after_break_def split: list.splits)

definition splitlines :: "string \<Rightarrow> string list" where
  "splitlines s = splitlines_from [] s"

text \<open>
  \<^verbatim>\<open>textwrap.dedent(text)\<close>: lines made of spaces and tabs only become empty, the
  margin is the longest run of leading spaces and tabs common to all other lines, and
  the margin is cut off every line that starts with it.
\<close>

fun split_nl :: "string \<Rightarrow> string list" where
  "split_nl [] = [[]]"
| "split_nl (c # cs) =
     (if c = CHR 0x0A then [] # split_nl cs
      else (case split_nl cs of l # ls \<Rightarrow> (c # l) # ls | [] \<Rightarrow> [[c]]))"

fun join_nl :: "string list \<Rightarrow> string" where
  "join_nl [] = []"
| "join_nl [l] = l"
| "join_nl (l # ls) = l @ CHR 0x0A # join_nl ls"

definition is_indent_char :: "char \<Rightarrow> bool" where
  "is_indent_char c \<longleftrightarrow> c = CHR '' '' \<or> c = CHR 0x09"

fun common_prefix :: "string \<Rightarrow> string \<Rightarrow> string" where
  "common_prefix (x # xs) (y # ys) = (if x = y then x # common_prefix xs ys else [])"
| "common_prefix _ _ = []"

definition textwrap_dedent :: "string \<Rightarrow> string" where
  "textwrap_dedent text =
     (let lines = map (\<lambda>l. if list_all is_indent_char l then [] else l) (split_nl text);
          indents = map (takeWhile is_indent_char) (filter (\<lambda>l. l \<noteq> []) lines);
          margin = (case indents of [] \<Rightarrow> [] | i # rest \<Rightarrow> foldl common_prefix i rest)
      in join_nl (map (\<lambda>l. if margin \<noteq> [] \<and> prefix margin l
                             then drop (length margin) l else l) lines))"

text \<open>\<^verbatim>\<open>range(start, stop, -1)\<close>: from \<open>start\<close> down to \<open>stop + 1\<close>.\<close>

definition range_down :: "int \<Rightarrow> int \<Rightarrow> int list" where
  "range_down start stop = map (\<lambda>k. start - int k) [0 ..< nat (start - stop)]"

subsection \<open>Year resolver\<close>

text \<open>
  \<^verbatim>\<open>this_year\<close> and \<^verbatim>\<open>last_year\<close> are wrapped in \<^verbatim>\<open>functools.cache\<close>: each has
  a memo for its only (empty) argument list. The first argument of the model is the year
  the system clock shows at the moment of the call.
\<close>

record year_cache =
  this_year_memo :: "int option"
  last_year_memo :: "int option"

definition empty_cache :: year_cache where
  "empty_cache = \<lparr>this_year_memo = None, last_year_memo = None\<rparr>"

definition this_year :: "int \<Rightarrow> year_cache \<Rightarrow> int \<times> year_cache" where
  "this_year now c =
     (case this_year_memo c of
        Some y \<Rightarrow> (y, c)
      | None \<Rightarrow> (now, c\<lparr>this_year_memo := Some now\<rparr>))"

definition last_year :: "int \<Rightarrow> year_cache \<Rightarrow> int \<times> year_cache" where
  "last_year now c =
     (case last_year_memo c of
        Some y \<Rightarrow> (y, c)
      | None \<Rightarrow> (let (t, c') = this_year now c
                 in (t - 1, c'\<lparr>last_year_memo := Some (t - 1)\<rparr>)))"

text \<open>A run of the process: calls of either function, each at its own clock reading.\<close>

datatype year_call = ThisYear | LastYear

fun year_calls :: "(year_call \<times> int) list \<Rightarrow> year_cache \<Rightarrow> int list" where
  "year_calls [] c = []"
| "year_calls ((ThisYear, now) # rest) c =
     (let (y, c') = this_year now c in y # year_calls rest c')"
| "year_calls ((LastYear, now) # rest) c =
     (let (y, c') = last_year now c in y # year_calls rest c')"

subsection \<open>Command runner\<close>

datatype error = CalledProcessError int string | ValueError string

datatype event = Printed string | Ran string

record 'os process =
  events :: "event list"
  world :: 'os

type_synonym 'os shell = "string \<Rightarrow> 'os \<Rightarrow> int \<times> 'os"

definition print :: "string \<Rightarrow> 'os process \<Rightarrow> 'os process" where
  "print s st = st\<lparr>events := events st @ [Printed s]\<rparr>"

text \<open>
  \<^verbatim>\<open>subprocess.run(command, shell=True, check=True)\<close>: a command that holds a NUL
  character cannot be handed to the shell, and \<^verbatim>\<open>ValueError\<close> is raised before
  anything is run. Otherwise the shell runs the command on the outside world and gives
  an exit status; a non-zero status is raised as
  \<^verbatim>\<open>CalledProcessError(returncode, cmd)\<close>.
\<close>

definition subprocess_run :: "'os shell \<Rightarrow> string \<Rightarrow> 'os process \<Rightarrow> error option \<times> 'os process" where
  "subprocess_run sh command st =
     (if CHR 0x00 \<in> set command then (Some (ValueError ''embedded null byte''), st)
      else (let (rc, w) = sh command (world st);
                st' = st\<lparr>events := events st @ [Ran command], world := w\<rparr>
            in (if rc \<noteq> 0 then Some (CalledProcessError rc command) else None, st')))"

fun run_lines :: "'os shell \<Rightarrow> string list \<Rightarrow> 'os process \<Rightarrow> error option \<times> 'os process" where
  "run_lines sh [] st = (None, st)"
| "run_lines sh (command # rest) st =
     (if command \<noteq> []
      then (case subprocess_run sh command (print command st) of
              (Some e, st') \<Rightarrow> (Some e, st')
            | (None, st') \<Rightarrow> run_lines sh rest st')
      else run_lines sh rest st)"

definition run_commands :: "'os shell \<Rightarrow> string \<Rightarrow> 'os process \<Rightarrow> error option \<times> 'os process" where
  "run_commands sh commands st = run_lines sh (splitlines (textwrap_dedent commands)) st"

text \<open>The commands a process has run, in order.\<close>

fun ran :: "event list \<Rightarrow> string list" where
  "ran [] = []"
| "ran (Ran c # es) = c # ran es"
| "ran (Printed s # es) = ran es"

subsection \<open>README updater\<close>

text \<open>
  The five pairs of \<^verbatim>\<open>update_readme\<close>; \<open>ly\<close> is the value of \<^verbatim>\<open>last_year()\<close>
  and \<open>ty\<close> the value of \<^verbatim>\<open>this_year()\<close>. \<open>readme_text\<close> is the loop over the
  pairs: \<^verbatim>\<open>readme = readme.replace(old, new)\<close> for each pair in turn.
\<close>

definition readme_replacements :: "int \<Rightarrow> int \<Rightarrow> (string \<times> string) list" where
  "readme_replacements ly ty =
     [(''# NaNoGenMo '' @ str_int ly, ''# NaNoGenMo '' @ str_int ty),
      (''NaNoGenMo/'' @ str_int ly @ ''/issues?q=label'',
       ''NaNoGenMo/'' @ str_int ty @ ''/issues?q=label''),
      (''This is the '' @ str_int ly @ '' edition.'',
       ''This is the '' @ str_int ty @ '' edition.''),
      (''* ['' @ str_int (ly - 1) @ ''](https://github.com/NaNoGenMo/'' @ str_int (ly - 1) @ '')'',
       ''* ['' @ str_int ly @ ''](https://github.com/NaNoGenMo/'' @ str_int ly @ '')\<newline>''
         @ ''* ['' @ str_int (ly - 1) @ ''](https://github.com/NaNoGenMo/'' @ str_int (ly - 1) @ '')''),
      (''* ['' @ str_int (ly - 1) @ ''](https://github.com/NaNoGenMo/'' @ str_int (ly - 1) @ ''/issues/1)'',
       ''* ['' @ str_int (ly - 1) @ ''](https://github.com/NaNoGenMo/'' @ str_int (ly - 1) @ ''/issues/1)\<newline>''
         @ ''* ['' @ str_int ly @ ''](https://github.com/NaNoGenMo/'' @ str_int ly @ ''/issues/1)'')]"

definition replace_each :: "(string \<times> string) list \<Rightarrow> string \<Rightarrow> string" where
  "replace_each pairs readme = foldl (\<lambda>r (old, new). replace r old new) readme pairs"

definition readme_text :: "int \<Rightarrow> int \<Rightarrow> string \<Rightarrow> string" where
  "readme_text ly ty readme = replace_each (readme_replacements ly ty) readme"

text \<open>
  \<^verbatim>\<open>update_readme\<close>: \<open>readme\<close> is what \<^verbatim>\<open>f.read()\<close> gives for
  \<^verbatim>\<open>README.md\<close>; the first component of the result is what is written back. The
  file is written before the three git commands run, so it is written whether they
  fail or not. The change of directory is not part of the model.
\<close>

definition update_readme ::
  "'os shell \<Rightarrow> int \<Rightarrow> int \<Rightarrow> string \<Rightarrow> 'os process \<Rightarrow> string \<times> error option \<times> 'os process" where
  "update_readme sh ly ty readme st =
     (let readme' = readme_text ly ty readme;
          st0 = print readme' st
      in case run_commands sh ''git add README.md'' st0 of
           (Some e, st1) \<Rightarrow> (readme', Some e, st1)
         | (None, st1) \<Rightarrow>
             (case run_commands sh
                     (''git commit -m '' @ [CHR 0x27] @ str_int ly @ '' -> '' @ str_int ty @ [CHR 0x27])
                     st1 of
                (Some e, st2) \<Rightarrow> (readme', Some e, st2)
              | (None, st2) \<Rightarrow>
                  (case run_commands sh ''git push'' st2 of (e, st3) \<Rightarrow> (readme', e, st3))))"

subsection \<open>Issue seeder: the two issue bodies\<close>

text \<open>
  The texts \<^verbatim>\<open>create_issues\<close> writes to \<^verbatim>\<open>/tmp/issue1.txt\<close> and
  \<^verbatim>\<open>/tmp/issue2.txt\<close>; each \<^verbatim>\<open>for\<close> loop appends one line per year.
\<close>

definition issue1_text :: "int \<Rightarrow> string" where
  "issue1_text ly =
     foldl (\<lambda>text year. text @ ''* ['' @ str_int year @ ''](https://github.com/NaNoGenMo/''
                                   @ str_int year @ ''/issues/1)\<newline>'')
       (textwrap_dedent (''    This is an open issue where you can comment and add resources that might come in handy for NaNoGenMo.\<newline>''
          @ ''\<newline>''
          @ ''    There are already a ton of resources on the old resources threads of previous editions:\<newline>''
          @ ''\<newline>''
          @ ''    ''))
       (range_down ly (2016 - 1))
     @ ''* [2015](https://github.com/dariusk/NaNoGenMo-2015/issues/1)\<newline>''
     @ ''* [2014](https://github.com/dariusk/nanogenmo-2014/issues/1)\<newline>''
     @ ''* [2013](https://github.com/dariusk/NaNoGenMo/issues/11)\<newline>''"

definition issue2_text :: "int \<Rightarrow> string" where
  "issue2_text ly =
     foldl (\<lambda>text year. text @ ''* ['' @ str_int year @ ''](https://github.com/NaNoGenMo/''
                                   @ str_int year @ ''/issues/2)\<newline>'')
       ''Links to previous years:\<newline>\<newline>''
       (range_down ly (2016 - 1))
     @ ''* [2016](https://github.com/NaNoGenMo/2016/issues/5)\<newline>''
     @ ''* [2015](https://github.com/dariusk/NaNoGenMo-2015/issues/9)\<newline>''
     @ ''* [2014](https://github.com/dariusk/NaNoGenMo-2014/issues/92)\<newline>''"

subsection \<open>A README cut into pieces\<close>

text \<open>
  To speak about the places where the patterns stand, a README is cut into pieces:
  plain text, and slots. Slot \<open>k\<close> holds the old text of pair \<open>k\<close> before the update
  and its new text afterwards. \<open>only_marked\<close> says that the slots are all there is: no
  old text of any pair begins inside a piece of plain text.
\<close>

datatype piece = Text string | Slot nat

fun before :: "(string \<times> string) list \<Rightarrow> piece list \<Rightarrow> string" where
  "before pairs [] = []"
| "before pairs (Text t # ps) = t @ before pairs ps"
| "before pairs (Slot k # ps) = fst (pairs ! k) @ before pairs ps"

fun after :: "(string \<times> string) list \<Rightarrow> piece list \<Rightarrow> string" where
  "after pairs [] = []"
| "after pairs (Text t # ps) = t @ after pairs ps"
| "after pairs (Slot k # ps) = snd (pairs ! k) @ after pairs ps"

fun none_starts :: "(string \<times> string) list \<Rightarrow> string \<Rightarrow> string \<Rightarrow> bool" where
  "none_starts pairs [] rest = True"
| "none_starts pairs (c # cs) rest =
     (list_all (\<lambda>(old, new). \<not> prefix old (c # cs @ rest)) pairs \<and> none_starts pairs cs rest)"

fun only_marked :: "(string \<times> string) list \<Rightarrow> piece list \<Rightarrow> bool" where
  "only_marked pairs [] = True"
| "only_marked pairs (Text t # ps) =
     (none_starts pairs t (before pairs ps) \<and> only_marked pairs ps)"
| "only_marked pairs (Slot k # ps) = (k < length pairs \<and> only_marked pairs ps)"

fun slots :: "piece list \<Rightarrow> nat list" where
  "slots [] = []"
| "slots (Text t # ps) = slots ps"
| "slots (Slot k # ps) = k # slots ps"

text \<open>
  Every README can be cut: scan it from the left, put a slot where the old text of a pair
  begins (the first such pair) and go on behind that old text, and put the character into
  plain text otherwise. \<open>slot_at\<close> gives the slot that begins at an offset of the README.
\<close>

fun first_match :: "(string \<times> string) list \<Rightarrow> string \<Rightarrow> nat option" where
  "first_match [] s = None"
| "first_match ((old, new) # later) s =
     (if old \<noteq> [] \<and> prefix old s then Some 0 else map_option Suc (first_match later s))"

function pieces_of :: "(string \<times> string) list \<Rightarrow> string \<Rightarrow> piece list" where
  "pieces_of pairs [] = []"
| "pieces_of pairs (c # cs) =
     (case first_match pairs (c # cs) of
        Some k \<Rightarrow> Slot k # pieces_of pairs (drop (length (fst (pairs ! k))) (c # cs))
      | None \<Rightarrow> Text [c] # pieces_of pairs cs)"
  by pat_completeness auto
termination
proof (relation "measure (\<lambda>(pairs, s). length s)")
  show "wf (measure (\<lambda>(pairs, s). length s))" by simp
next
  fix pairs :: "(string \<times> string) list" and c :: char and cs :: string and k :: nat
  assume found: "first_match pairs (c # cs) = Some k"
  have "\<And>k. first_match pairs (c # cs) = Some k \<Longrightarrow> fst (pairs ! k) \<noteq> []"
  proof (induction pairs)
    case Nil
    then show ?case by simp
  next
    case (Cons p pairs)
    obtain old new where p: "p = (old, new)" by (cases p)
    show ?case
    proof (cases "old \<noteq> [] \<and> prefix old (c # cs)")
      case True
      with Cons.prems p show ?thesis by auto
    next
      case False
      with Cons.prems p obtain k' where "first_match pairs (c # cs) = Some k'" "k = Suc k'"
        by auto
      with Cons.IH show ?thesis by simp
    qed
  qed
  with found have "fst (pairs ! k) \<noteq> []" by blast
  then show "((pairs, drop (length (fst (pairs ! k))) (c # cs)), pairs, c # cs)
             \<in> measure (\<lambda>(pairs, s). length s)"
    by (cases "fst (pairs ! k)") simp_all
next
  fix pairs :: "(string \<times> string) list" and c :: char and cs :: string
  show "((pairs, cs), pairs, c # cs) \<in> measure (\<lambda>(pairs, s). length s)" by simp
qed

fun slot_at :: "(string \<times> string) list \<Rightarrow> piece list \<Rightarrow> nat \<Rightarrow> nat option" where
  "slot_at pairs [] j = None"
| "slot_at pairs (Text t # ps) j =
     (if j < length t then None else slot_at pairs ps (j - length t))"
| "slot_at pairs (Slot k # ps) j =
     (if j = 0 then Some k
      else if j < length (fst (pairs ! k)) then None
      else slot_at pairs ps (j - length (fst (pairs ! k))))"

subsection \<open>Texts that cannot touch\<close>

text \<open>
  Two texts are incomparable when neither is a prefix of the other. \<open>no_overlap a b\<close>: no
  occurrence of \<open>b\<close> can begin inside \<open>a\<close>, whatever follows \<open>a\<close>.
\<close>

definition incomparable :: "string \<Rightarrow> string \<Rightarrow> bool" where
  "incomparable a b \<longleftrightarrow> \<not> prefix a b \<and> \<not> prefix b a"

fun no_overlap :: "string \<Rightarrow> string \<Rightarrow> bool" where
  "no_overlap [] b = True"
| "no_overlap (c # cs) b = (incomparable (c # cs) b \<and> no_overlap cs b)"

text \<open>A list of pairs in which no later old text can touch an earlier old or new text.\<close>

fun separate :: "(string \<times> string) list \<Rightarrow> bool" where
  "separate [] = True"
| "separate ((old, new) # later) =
     (old \<noteq> [] \<and>
      list_all (\<lambda>(old', new'). no_overlap new old' \<and> no_overlap old' old \<and> no_overlap old' new) later \<and>
      separate later)"

definition untouched :: "string \<Rightarrow> (string \<times> string) list \<Rightarrow> bool" where
  "untouched p pairs \<longleftrightarrow>
     list_all (\<lambda>(old, new). old \<noteq> [] \<and> no_overlap p new \<and> no_overlap new p) pairs"

text \<open>No old text begins inside an old text, behind its first character.\<close>

definition olds_apart :: "(string \<times> string) list \<Rightarrow> bool" where
  "olds_apart pairs \<longleftrightarrow>
     list_all (\<lambda>(old, new). list_all (\<lambda>(old', new'). no_overlap (tl old) old') pairs) pairs"

text \<open>The README while the pairs below \<open>i\<close> have been applied.\<close>

fun midway :: "nat \<Rightarrow> (string \<times> string) list \<Rightarrow> piece list \<Rightarrow> string" where
  "midway i pairs [] = []"
| "midway i pairs (Text t # ps) = t @ midway i pairs ps"
| "midway i pairs (Slot k # ps) =
     (if k < i then snd (pairs ! k) else fst (pairs ! k)) @ midway i pairs ps"

definition year_char :: "char \<Rightarrow> bool" where
  "year_char c \<longleftrightarrow> c = CHR ''-'' \<or> c \<in> set ''0123456789''"

subsection \<open>Notions used to state the properties of the runs\<close>

text \<open>
  A cache is settled at \<open>y\<close> once \<^verbatim>\<open>this_year\<close> has stored \<open>y\<close>; \<open>answer\<close> is what a
  call returns from then on. \<open>announced\<close> is the log of commands that were each printed
  and then run.
\<close>

definition settled :: "int \<Rightarrow> year_cache \<Rightarrow> bool" where
  "settled y c \<longleftrightarrow>
     this_year_memo c = Some y \<and> (last_year_memo c = None \<or> last_year_memo c = Some (y - 1))"

definition answer :: "int \<Rightarrow> year_call \<times> int \<Rightarrow> int" where
  "answer y call = (case fst call of ThisYear \<Rightarrow> y | LastYear \<Rightarrow> y - 1)"

definition announced :: "string list \<Rightarrow> event list" where
  "announced cmds = concat (map (\<lambda>c. [Printed c, Ran c]) cmds)"

text \<open>
  The worlds a list of commands meets when each of them is run in turn, and what it
  means for the \<open>i\<close>-th of them to fail there: it holds a NUL character, or the shell
  gives it a status other than 0.
\<close>

fun worlds :: "'os shell \<Rightarrow> 'os \<Rightarrow> string list \<Rightarrow> 'os list" where
  "worlds sh w [] = [w]"
| "worlds sh w (c # cs) = w # worlds sh (snd (sh c w)) cs"

definition fails_at :: "'os shell \<Rightarrow> 'os \<Rightarrow> string list \<Rightarrow> nat \<Rightarrow> bool" where
  "fails_at sh w cmds i \<longleftrightarrow>
     CHR 0x00 \<in> set (cmds ! i) \<or> fst (sh (cmds ! i) (worlds sh w cmds ! i)) \<noteq> 0"

section \<open>Lemmas\<close>

subsection \<open>Replacing all occurrences\<close>

lemma prefix_append_comparable:
  "prefix p (a @ x) \<Longrightarrow> prefix p a \<or> prefix a p"
  by (auto simp: prefix_append)

lemma replace_all_hit:
  "old \<noteq> [] \<Longrightarrow> replace_all (old @ x) old new = new @ replace_all x old new"
  by (cases old) auto

lemma replace_all_skip:
  "no_overlap a old \<Longrightarrow> replace_all (a @ x) old new = a @ replace_all x old new"
proof (induction a)
  case Nil
  show ?case by simp
next
  case (Cons c cs)
  from Cons.prems have inc: "incomparable (c # cs) old" and rest: "no_overlap cs old"
    by simp_all
  have "\<not> prefix old ((c # cs) @ x)"
    using inc prefix_append_comparable [of old "c # cs" x] by (auto simp: incomparable_def)
  then have "replace_all ((c # cs) @ x) old new = c # replace_all (cs @ x) old new"
    by simp
  with Cons.IH [OF rest] show ?case by simp
qed

lemma replace_all_absent:
  "\<not> sublist old s \<Longrightarrow> replace_all s old new = s"
proof (induction s)
  case Nil
  show ?case by simp
next
  case (Cons c cs)
  from Cons.prems have "\<not> prefix old (c # cs)" and "\<not> sublist old cs"
    by (auto simp: sublist_Cons_right)
  with Cons.IH show ?case by simp
qed

lemma no_overlap_not_prefix:
  "no_overlap a b \<Longrightarrow> j < length a \<Longrightarrow> \<not> prefix b (drop j a @ x)"
proof (induction a arbitrary: j)
  case Nil
  then show ?case by simp
next
  case (Cons c cs)
  show ?case
  proof (cases j)
    case 0
    from Cons.prems have "incomparable (c # cs) b" by simp
    then show ?thesis
      using 0 prefix_append_comparable [of b "c # cs" x] by (auto simp: incomparable_def)
  next
    case (Suc k)
    with Cons show ?thesis by simp
  qed
qed

text \<open>A prefix of the result that cannot touch \<open>new\<close> was there before.\<close>

lemma prefix_replace_all_back:
  "prefix p (replace_all s old new) \<Longrightarrow> no_overlap p new \<Longrightarrow> prefix p s"
proof (induction s old new arbitrary: p rule: replace_all.induct)
  case (1 old new)
  then show ?case by simp
next
  case (2 c cs old new)
  show ?case
  proof (cases p)
    case Nil
    then show ?thesis by simp
  next
    case (Cons d ds)
    show ?thesis
    proof (cases "old \<noteq> [] \<and> prefix old (c # cs)")
      case True
      with "2.prems"(1) have "prefix p (new @ replace_all (drop (length old) (c # cs)) old new)"
        by simp
      then have "prefix p new \<or> prefix new p" by (rule prefix_append_comparable)
      moreover from "2.prems"(2) Cons have "incomparable p new" by simp
      ultimately show ?thesis by (simp add: incomparable_def)
    next
      case False
      with "2.prems"(1) have pre: "prefix p (c # replace_all cs old new)" by auto
      with Cons have dc: "d = c" and "prefix ds (replace_all cs old new)" by simp_all
      moreover from "2.prems"(2) Cons have "no_overlap ds new" by simp
      ultimately have "prefix ds cs" using "2.IH"(2) [OF False] by blast
      with dc Cons show ?thesis by simp
    qed
  qed
qed

text \<open>A prefix that no occurrence of \<open>old\<close> can touch stays.\<close>

lemma prefix_replace_all_keep:
  "prefix p s \<Longrightarrow> no_overlap p old \<Longrightarrow> prefix p (replace_all s old new)"
proof (induction s old new arbitrary: p rule: replace_all.induct)
  case (1 old new)
  then show ?case by simp
next
  case (2 c cs old new)
  show ?case
  proof (cases p)
    case Nil
    then show ?thesis by simp
  next
    case (Cons d ds)
    from "2.prems"(2) Cons have inc: "incomparable p old" and tl: "no_overlap ds old"
      by simp_all
    have miss: "\<not> (old \<noteq> [] \<and> prefix old (c # cs))"
    proof
      assume "old \<noteq> [] \<and> prefix old (c # cs)"
      with "2.prems"(1) have "prefix p old \<or> prefix old p"
        using prefix_same_cases by blast
      with inc show False by (simp add: incomparable_def)
    qed
    from "2.prems"(1) Cons have dc: "d = c" and "prefix ds cs" by simp_all
    with tl have "prefix ds (replace_all cs old new)" using "2.IH"(2) [OF miss] by blast
    with dc Cons miss show ?thesis by auto
  qed
qed

lemma replace_all_skip_positions:
  "\<forall>j<length a. \<not> prefix old (drop j a @ x) \<Longrightarrow>
   replace_all (a @ x) old new = a @ replace_all x old new"
proof (induction a)
  case Nil
  show ?case by simp
next
  case (Cons c cs)
  from Cons.prems have "\<not> prefix old (drop 0 (c # cs) @ x)" by blast
  then have head: "\<not> prefix old (c # cs @ x)" by simp
  have "\<forall>j<length cs. \<not> prefix old (drop j cs @ x)"
  proof (intro allI impI)
    fix j assume "j < length cs"
    then have "Suc j < length (c # cs)" by simp
    with Cons.prems have "\<not> prefix old (drop (Suc j) (c # cs) @ x)" by blast
    then show "\<not> prefix old (drop j cs @ x)" by simp
  qed
  with Cons.IH head show ?case by simp
qed

text \<open>An occurrence in \<open>a @ x\<close> begins inside \<open>a\<close> or lies in \<open>x\<close>.\<close>

lemma sublist_append_start:
  "sublist p (a @ x) \<Longrightarrow> (\<exists>j<length a. prefix p (drop j a @ x)) \<or> sublist p x"
proof (induction a)
  case Nil
  then show ?case by simp
next
  case (Cons c cs)
  from Cons.prems have "prefix p (c # cs @ x) \<or> sublist p (cs @ x)"
    by (simp add: sublist_Cons_right)
  then show ?case
  proof
    assume "prefix p (c # cs @ x)"
    then have "prefix p (drop 0 (c # cs) @ x)" by simp
    then show ?thesis by blast
  next
    assume "sublist p (cs @ x)"
    with Cons.IH have "(\<exists>j<length cs. prefix p (drop j cs @ x)) \<or> sublist p x" by blast
    then show ?thesis
    proof
      assume "\<exists>j<length cs. prefix p (drop j cs @ x)"
      then obtain j where "j < length cs" "prefix p (drop j cs @ x)" by blast
      then have "Suc j < length (c # cs)" "prefix p (drop (Suc j) (c # cs) @ x)" by simp_all
      then show ?thesis by blast
    qed blast
  qed
qed

lemma sublist_append_no_overlap:
  "sublist p (a @ x) \<Longrightarrow> no_overlap a p \<Longrightarrow> sublist p x"
  using sublist_append_start [of p a x] no_overlap_not_prefix [of a p _ x] by blast

lemma sublist_drop_back: "sublist p (drop n s) \<Longrightarrow> sublist p s"
  using sublist_drop [of n s] sublist_order.order_trans by blast

text \<open>What was absent and cannot touch \<open>new\<close> is still absent.\<close>

lemma absent_replace_all:
  "\<not> sublist p s \<Longrightarrow> no_overlap p new \<Longrightarrow> no_overlap new p \<Longrightarrow>
   \<not> sublist p (replace_all s old new)"
proof (induction s old new rule: replace_all.induct)
  case (1 old new)
  then show ?case by simp
next
  case (2 c cs old new)
  show ?case
  proof (cases "old \<noteq> [] \<and> prefix old (c # cs)")
    case True
    have "\<not> sublist p (drop (length old) (c # cs))"
      using "2.prems"(1) sublist_drop_back by blast
    then have "\<not> sublist p (replace_all (drop (length old) (c # cs)) old new)"
      using "2.IH"(1) [OF True] "2.prems"(2,3) by blast
    then have "\<not> sublist p (new @ replace_all (drop (length old) (c # cs)) old new)"
      using sublist_append_no_overlap "2.prems"(3) by blast
    with True show ?thesis by simp
  next
    case False
    have "\<not> sublist p cs" using "2.prems"(1) by (simp add: sublist_Cons_right)
    then have tl: "\<not> sublist p (replace_all cs old new)"
      using "2.IH"(2) [OF False] "2.prems"(2,3) by blast
    have "\<not> prefix p (replace_all (c # cs) old new)"
      using prefix_replace_all_back [OF _ "2.prems"(2)] "2.prems"(1) by blast
    with tl False show ?thesis by (auto simp: sublist_Cons_right)
  qed
qed

text \<open>The replaced text itself is gone when it cannot touch \<open>new\<close>.\<close>

lemma old_gone_replace_all:
  "old \<noteq> [] \<Longrightarrow> no_overlap old new \<Longrightarrow> no_overlap new old \<Longrightarrow>
   \<not> sublist old (replace_all s old new)"
proof (induction s old new rule: replace_all.induct)
  case (1 old new)
  then show ?case by simp
next
  case (2 c cs old new)
  show ?case
  proof (cases "old \<noteq> [] \<and> prefix old (c # cs)")
    case True
    have "\<not> sublist old (replace_all (drop (length old) (c # cs)) old new)"
      using "2.IH"(1) [OF True] "2.prems" by blast
    then have "\<not> sublist old (new @ replace_all (drop (length old) (c # cs)) old new)"
      using sublist_append_no_overlap "2.prems"(3) by blast
    with True show ?thesis by simp
  next
    case False
    with "2.prems"(1) have miss: "\<not> prefix old (c # cs)" by simp
    have tl: "\<not> sublist old (replace_all cs old new)"
      using "2.IH"(2) [OF False] "2.prems" by blast
    have "\<not> prefix old (replace_all (c # cs) old new)"
      using prefix_replace_all_back [OF _ "2.prems"(2)] miss by blast
    with tl False show ?thesis by (auto simp: sublist_Cons_right)
  qed
qed

text \<open>Where \<open>old\<close> occurred, \<open>new\<close> occurs.\<close>

lemma new_present_replace_all:
  "old \<noteq> [] \<Longrightarrow> sublist old s \<Longrightarrow> sublist new (replace_all s old new)"
proof (induction s old new rule: replace_all.induct)
  case (1 old new)
  then show ?case by simp
next
  case (2 c cs old new)
  show ?case
  proof (cases "old \<noteq> [] \<and> prefix old (c # cs)")
    case True
    then show ?thesis by simp
  next
    case False
    with "2.prems" have "sublist old cs" by (simp add: sublist_Cons_right)
    then have "sublist new (replace_all cs old new)"
      using "2.IH"(2) [OF False] "2.prems"(1) by blast
    with False show ?thesis by (auto simp: sublist_Cons_right)
  qed
qed

text \<open>An occurrence that no occurrence of \<open>old\<close> can touch stays.\<close>

lemma present_replace_all:
  "sublist p s \<Longrightarrow> no_overlap p old \<Longrightarrow> no_overlap old p \<Longrightarrow>
   sublist p (replace_all s old new)"
proof (induction s old new rule: replace_all.induct)
  case (1 old new)
  then show ?case by simp
next
  case (2 c cs old new)
  show ?case
  proof (cases "old \<noteq> [] \<and> prefix old (c # cs)")
    case True
    then obtain rest where split: "c # cs = old @ rest" by (auto simp: prefix_def)
    then have rest: "drop (length old) (c # cs) = rest" by simp
    from "2.prems"(1) split have "sublist p (old @ rest)" by simp
    then have "sublist p rest" using sublist_append_no_overlap "2.prems"(3) by blast
    then have "sublist p (replace_all (drop (length old) (c # cs)) old new)"
      using "2.IH"(1) [OF True] "2.prems"(2,3) rest by simp
    then have "sublist p (new @ replace_all (drop (length old) (c # cs)) old new)"
      by (metis sublist_append)
    with True show ?thesis by simp
  next
    case False
    from "2.prems"(1) have "prefix p (c # cs) \<or> sublist p cs"
      by (simp add: sublist_Cons_right)
    then show ?thesis
    proof
      assume "prefix p (c # cs)"
      then have "prefix p (replace_all (c # cs) old new)"
        using prefix_replace_all_keep "2.prems"(2) by blast
      then show ?thesis by (rule prefix_imp_sublist)
    next
      assume "sublist p cs"
      then have "sublist p (replace_all cs old new)"
        using "2.IH"(2) [OF False] "2.prems"(2,3) by blast
      with False show ?thesis by (auto simp: sublist_Cons_right)
    qed
  qed
qed

subsection \<open>Decimal digits of the years\<close>

lemma digit_char_in: "d < 10 \<Longrightarrow> digit_char d \<in> set ''0123456789''"
  unfolding digit_char_def by (rule nth_mem) simp

lemma digit_char_inj: "d < 10 \<Longrightarrow> e < 10 \<Longrightarrow> digit_char d = digit_char e \<Longrightarrow> d = e"
proof -
  assume "d < 10" "e < 10" "digit_char d = digit_char e"
  moreover have "distinct ''0123456789''" by simp
  ultimately show "d = e"
    unfolding digit_char_def by (simp add: nth_eq_iff_index_eq)
qed

lemma str_nat_digits: "set (str_nat n) \<subseteq> set ''0123456789''"
proof (induction n rule: str_nat.induct)
  case (1 n)
  show ?case
  proof (cases "n < 10")
    case True
    then show ?thesis using digit_char_in [of n] by (subst str_nat.simps) simp
  next
    case False
    have "n mod 10 < 10" by simp
    then have "digit_char (n mod 10) \<in> set ''0123456789''" by (rule digit_char_in)
    with "1.IH" [OF False] False show ?thesis by (subst str_nat.simps) simp
  qed
qed

lemma str_nat_not_Nil: "str_nat n \<noteq> []"
  by (subst str_nat.simps) simp

lemma str_nat_length_1: "length (str_nat n) = Suc 0 \<longleftrightarrow> n < 10"
proof (cases "n < 10")
  case True
  then have "str_nat n = [digit_char n]" by (subst str_nat.simps) simp
  with True show ?thesis by simp
next
  case False
  then have "str_nat n = str_nat (n div 10) @ [digit_char (n mod 10)]"
    by (subst str_nat.simps) simp
  then have "length (str_nat n) = Suc (length (str_nat (n div 10)))" by simp
  moreover have "length (str_nat (n div 10)) \<noteq> 0" using str_nat_not_Nil by simp
  ultimately show ?thesis using False by simp
qed

lemma str_nat_inj: "str_nat m = str_nat n \<Longrightarrow> m = n"
proof (induction m arbitrary: n rule: str_nat.induct)
  case (1 m)
  show ?case
  proof (cases "m < 10")
    case True
    then have m: "str_nat m = [digit_char m]" by (subst str_nat.simps) simp
    from "1.prems" have "length (str_nat n) = length (str_nat m)" by simp
    with m have "length (str_nat n) = Suc 0" by simp
    then have n10: "n < 10" by (simp add: str_nat_length_1)
    then have "str_nat n = [digit_char n]" by (subst str_nat.simps) simp
    with m "1.prems" have "digit_char m = digit_char n" by simp
    with True n10 show ?thesis by (rule digit_char_inj)
  next
    case False
    then have m: "str_nat m = str_nat (m div 10) @ [digit_char (m mod 10)]"
      by (subst str_nat.simps) simp
    from False have "length (str_nat m) \<noteq> Suc 0" by (simp add: str_nat_length_1)
    with "1.prems" have n10: "\<not> n < 10" by (simp add: str_nat_length_1)
    then have n: "str_nat n = str_nat (n div 10) @ [digit_char (n mod 10)]"
      by (subst str_nat.simps) simp
    from m n "1.prems" have eq: "str_nat (m div 10) = str_nat (n div 10)"
      and "digit_char (m mod 10) = digit_char (n mod 10)" by simp_all
    then have "m mod 10 = n mod 10" using digit_char_inj [of "m mod 10" "n mod 10"] by simp
    moreover from eq have "m div 10 = n div 10" by (rule "1.IH" [OF False])
    ultimately show ?thesis by (metis div_mult_mod_eq)
  qed
qed

text \<open>A number whose digits begin with the digits of \<open>m\<close> is \<open>m\<close> or at least ten times \<open>m\<close>.\<close>

lemma str_nat_prefix: "prefix (str_nat m) (str_nat n) \<Longrightarrow> m = n \<or> (0 < m \<and> 10 * m \<le> n)"
proof (induction n rule: str_nat.induct)
  case (1 n)
  show ?case
  proof (cases "n < 10")
    case True
    then have "str_nat n = [digit_char n]" by (subst str_nat.simps) simp
    with "1.prems" have "str_nat m = str_nat n"
      using str_nat_not_Nil [of m] by (cases "str_nat m") auto
    then show ?thesis using str_nat_inj by blast
  next
    case False
    then have n: "str_nat n = str_nat (n div 10) @ [digit_char (n mod 10)]"
      by (subst str_nat.simps) simp
    with "1.prems" have "str_nat m = str_nat n \<or> prefix (str_nat m) (str_nat (n div 10))"
      by simp
    then show ?thesis
    proof
      assume "str_nat m = str_nat n"
      then show ?thesis using str_nat_inj by blast
    next
      assume "prefix (str_nat m) (str_nat (n div 10))"
      then have "m = n div 10 \<or> (0 < m \<and> 10 * m \<le> n div 10)" by (rule "1.IH" [OF False])
      with False show ?thesis by auto
    qed
  qed
qed

lemma str_nat_succ_incomparable: "incomparable (str_nat n) (str_nat (Suc n))"
proof -
  have "\<not> prefix (str_nat n) (str_nat (Suc n))"
    using str_nat_prefix [of n "Suc n"] by auto
  moreover have "\<not> prefix (str_nat (Suc n)) (str_nat n)"
    using str_nat_prefix [of "Suc n" n] by auto
  ultimately show ?thesis by (simp add: incomparable_def)
qed

lemma str_nat_no_minus: "CHR ''-'' \<notin> set (str_nat n)"
proof
  assume "CHR ''-'' \<in> set (str_nat n)"
  with str_nat_digits have "CHR ''-'' \<in> set ''0123456789''" by blast
  then show False by simp
qed

lemma str_int_chars: "c \<in> set (str_int i) \<Longrightarrow> c = CHR ''-'' \<or> c \<in> set ''0123456789''"
proof (cases "i < 0")
  case True
  assume "c \<in> set (str_int i)"
  with True have "c = CHR ''-'' \<or> c \<in> set (str_nat (nat (- i)))"
    by (simp add: str_int_def)
  then show ?thesis using str_nat_digits by blast
next
  case False
  assume "c \<in> set (str_int i)"
  with False have "c \<in> set (str_nat (nat i))" by (simp add: str_int_def)
  then show ?thesis using str_nat_digits by blast
qed

lemma str_int_not_Nil: "str_int i \<noteq> []"
  by (simp add: str_int_def str_nat_not_Nil)

lemma str_int_inj: "str_int i = str_int j \<Longrightarrow> i = j"
proof -
  assume eq: "str_int i = str_int j"
  have hd_nat: "\<And>n. hd (str_nat n) \<noteq> CHR ''-''"
    using str_nat_no_minus str_nat_not_Nil by (metis list.set_sel(1))
  show "i = j"
  proof (cases "i < 0")
    case True
    show ?thesis
    proof (cases "j < 0")
      case jn: True
      with True eq have "str_nat (nat (- i)) = str_nat (nat (- j))" by (simp add: str_int_def)
      then have "nat (- i) = nat (- j)" by (rule str_nat_inj)
      with True jn show ?thesis by simp
    next
      case False
      with True eq have "CHR ''-'' # str_nat (nat (- i)) = str_nat (nat j)"
        by (simp add: str_int_def)
      then have "hd (str_nat (nat j)) = CHR ''-''" by (metis list.sel(1))
      with hd_nat show ?thesis by blast
    qed
  next
    case False
    show ?thesis
    proof (cases "j < 0")
      case True
      with False eq have "str_nat (nat i) = CHR ''-'' # str_nat (nat (- j))"
        by (simp add: str_int_def)
      then have "hd (str_nat (nat i)) = CHR ''-''" by (metis list.sel(1))
      with hd_nat show ?thesis by blast
    next
      case jp: False
      with False eq have "str_nat (nat i) = str_nat (nat j)" by (simp add: str_int_def)
      then have "nat i = nat j" by (rule str_nat_inj)
      with False jp show ?thesis by simp
    qed
  qed
qed

lemma str_int_succ_incomparable: "incomparable (str_int i) (str_int (i + 1))"
proof -
  have hd_nat: "\<And>n. hd (str_nat n) \<noteq> CHR ''-''"
    using str_nat_no_minus str_nat_not_Nil by (metis list.set_sel(1))
  consider "0 \<le> i" | "i = - 1" | "i < - 1" by linarith
  then show ?thesis
  proof cases
    case 1
    then have "nat (i + 1) = Suc (nat i)" by simp
    with 1 show ?thesis using str_nat_succ_incomparable [of "nat i"] by (simp add: str_int_def)
  next
    case 2
    have "str_nat 0 = [digit_char 0]" by (subst str_nat.simps) simp
    moreover have "str_nat 1 = [digit_char 1]" by (subst str_nat.simps) simp
    ultimately show ?thesis using 2 by (simp add: str_int_def incomparable_def digit_char_def)
  next
    case 3
    then have "nat (- i) = Suc (nat (- (i + 1)))" by simp
    with 3 show ?thesis
      using str_nat_succ_incomparable [of "nat (- (i + 1))"]
      by (simp add: str_int_def incomparable_def)
  qed
qed

subsection \<open>Deciding that two texts cannot touch\<close>

lemma incomparable_Cons [simp]:
  "incomparable (c # cs) (d # ds) \<longleftrightarrow> c \<noteq> d \<or> incomparable cs ds"
  by (auto simp: incomparable_def)

lemma incomparable_Nil [simp]: "incomparable [] b = False" "incomparable a [] = False"
  by (simp_all add: incomparable_def)

lemma incomparable_same_append [simp]:
  "incomparable (a @ x) (a @ y) = incomparable x y"
  by (simp add: incomparable_def)

lemma no_overlap_other_head:
  "d \<notin> set a \<Longrightarrow> no_overlap (a @ rest) (d # ds) = no_overlap rest (d # ds)"
  by (induction a) auto

lemma str_int_year_char: "c \<in> set (str_int i) \<Longrightarrow> year_char c"
  using str_int_chars by (simp add: year_char_def)

lemma no_overlap_str_int_append [simp]:
  "\<not> year_char d \<Longrightarrow> no_overlap (str_int i @ rest) (d # ds) = no_overlap rest (d # ds)"
  using no_overlap_other_head [of d "str_int i"] str_int_year_char by blast

lemma no_overlap_str_int [simp]:
  "\<not> year_char d \<Longrightarrow> no_overlap (str_int i) (d # ds)"
  using no_overlap_str_int_append [of d i "[]" ds] by simp

lemma hd_str_int: "\<exists>c cs. str_int i = c # cs \<and> year_char c"
  using str_int_not_Nil [of i] str_int_year_char [of _ i] by (cases "str_int i") auto

lemma incomparable_str_int_head [simp]:
  "\<not> year_char d \<Longrightarrow> incomparable (str_int i @ x) (d # ds)"
  "\<not> year_char d \<Longrightarrow> incomparable (d # ds) (str_int i @ x)"
  "\<not> year_char d \<Longrightarrow> incomparable (str_int i) (d # ds)"
  "\<not> year_char d \<Longrightarrow> incomparable (d # ds) (str_int i)"
  using hd_str_int [of i] by auto

text \<open>Two year numbers, each followed by a character that is no digit.\<close>

lemma takeWhile_year:
  "\<not> year_char t \<Longrightarrow> takeWhile year_char (str_int i @ t # x) = str_int i"
  using str_int_year_char by (simp add: takeWhile_append2)

lemma prefix_terminated:
  assumes "\<not> year_char t" and "\<not> year_char u"
    and "prefix (str_int i @ t # x) (str_int j @ u # y)"
  shows "i = j \<and> t = u \<and> prefix x y"
proof -
  from assms(3) obtain z where eq: "str_int j @ u # y = (str_int i @ t # x) @ z"
    by (auto simp: prefix_def)
  then have "takeWhile year_char (str_int j @ u # y) = takeWhile year_char (str_int i @ t # (x @ z))"
    by simp
  then have same: "str_int j = str_int i"
    using assms(1,2) by (simp add: takeWhile_year)
  then have "i = j" using str_int_inj by simp
  moreover from eq same have "t = u" "y = x @ z" by simp_all
  ultimately show ?thesis by simp
qed

lemma incomparable_terminated [simp]:
  assumes "\<not> year_char t" and "\<not> year_char u"
  shows "incomparable (str_int i @ t # x) (str_int j @ u # y) \<longleftrightarrow>
         i \<noteq> j \<or> t \<noteq> u \<or> incomparable x y"
proof (cases "i = j \<and> t = u")
  case True
  then show ?thesis by simp
next
  case False
  have "\<not> prefix (str_int i @ t # x) (str_int j @ u # y)"
    using prefix_terminated [OF assms] False by blast
  moreover have "\<not> prefix (str_int j @ u # y) (str_int i @ t # x)"
    using prefix_terminated [OF assms(2,1)] False by blast
  ultimately show ?thesis using False by (auto simp: incomparable_def)
qed

lemma incomparable_next_year [simp]:
  "incomparable (str_int (i - 1)) (str_int i)"
  "incomparable (str_int i) (str_int (i - 1))"
  using str_int_succ_incomparable [of "i - 1"] by (simp_all add: incomparable_def)

lemma year_char_simps [simp]:
  "\<not> year_char CHR ''#''" "\<not> year_char CHR ''N''" "\<not> year_char CHR ''T''"
  "\<not> year_char CHR ''*''" "\<not> year_char CHR ''/''" "\<not> year_char CHR '']''"
  "\<not> year_char CHR '')''" "\<not> year_char CHR '' ''"
  by (simp_all add: year_char_def)

subsection \<open>Replacing pair after pair\<close>

lemma midway_0: "midway 0 pairs ps = before pairs ps"
  by (induction pairs ps rule: before.induct) simp_all

lemma midway_all: "only_marked pairs ps \<Longrightarrow> midway (length pairs) pairs ps = after pairs ps"
  by (induction pairs ps rule: after.induct) simp_all

lemma separate_nth:
  "separate pairs \<Longrightarrow> i < j \<Longrightarrow> j < length pairs \<Longrightarrow>
   no_overlap (snd (pairs ! i)) (fst (pairs ! j)) \<and>
   no_overlap (fst (pairs ! j)) (fst (pairs ! i)) \<and>
   no_overlap (fst (pairs ! j)) (snd (pairs ! i))"
proof (induction pairs arbitrary: i j)
  case Nil
  then show ?case by simp
next
  case (Cons p later)
  obtain old new where p: "p = (old, new)" by (cases p)
  from Cons.prems(2) obtain j' where j: "j = Suc j'" by (cases j) auto
  with Cons.prems(3) have j': "j' < length later" by simp
  show ?case
  proof (cases i)
    case 0
    from Cons.prems(1) p have
      "list_all (\<lambda>(old', new'). no_overlap new old' \<and> no_overlap old' old \<and> no_overlap old' new) later"
      by simp
    with j' have "(\<lambda>(old', new'). no_overlap new old' \<and> no_overlap old' old \<and> no_overlap old' new) (later ! j')"
      by (simp add: list_all_length)
    with 0 j p show ?thesis by (simp add: case_prod_beta)
  next
    case (Suc i')
    with Cons.prems(2) j have "i' < j'" by simp
    moreover from Cons.prems(1) p have "separate later" by simp
    ultimately show ?thesis using Cons.IH [of i' j'] j' Suc j by simp
  qed
qed

lemma separate_nth_nonempty: "separate pairs \<Longrightarrow> i < length pairs \<Longrightarrow> fst (pairs ! i) \<noteq> []"
proof (induction pairs arbitrary: i)
  case Nil
  then show ?case by simp
next
  case (Cons p later)
  obtain old new where p: "p = (old, new)" by (cases p)
  with Cons show ?case by (cases i) auto
qed

lemma none_starts_positions:
  "none_starts pairs t rest \<Longrightarrow> j < length t \<Longrightarrow> p \<in> set pairs \<Longrightarrow>
   \<not> prefix (fst p) (drop j t @ rest)"
proof (induction t arbitrary: j)
  case Nil
  then show ?case by simp
next
  case (Cons c cs)
  show ?case
  proof (cases j)
    case 0
    from Cons.prems(1,3) have "(\<lambda>(old, new). \<not> prefix old (c # cs @ rest)) p"
      by (simp add: list_all_iff)
    with 0 show ?thesis by (simp add: case_prod_beta)
  next
    case (Suc k)
    with Cons show ?thesis by simp
  qed
qed

lemma replace_is_replace_all: "old \<noteq> [] \<Longrightarrow> replace s old new = replace_all s old new"
  by (simp add: replace_def)

lemma replace_each_snoc:
  "replace_each (pairs @ [(old, new)]) s = replace (replace_each pairs s) old new"
  by (simp add: replace_each_def)

lemma replace_each_Cons:
  "replace_each ((old, new) # pairs) s = replace_each pairs (replace s old new)"
  by (simp add: replace_each_def)

lemma replace_each_Nil: "replace_each [] s = s"
  by (simp add: replace_each_def)

lemma replace_each_append:
  "replace_each (xs @ ys) s = replace_each ys (replace_each xs s)"
  by (simp add: replace_each_def)

text \<open>A prefix of a partly replaced text that cannot touch any new text was there before.\<close>

lemma prefix_replace_all_back_append:
  "prefix p (a @ replace_all s old new) \<Longrightarrow> no_overlap p new \<Longrightarrow> prefix p (a @ s)"
proof (induction a arbitrary: p)
  case Nil
  then show ?case using prefix_replace_all_back by simp
next
  case (Cons c cs)
  show ?case
  proof (cases p)
    case Nil
    then show ?thesis by simp
  next
    case (Cons d ds)
    with Cons.prems have "d = c" "prefix ds (cs @ replace_all s old new)" "no_overlap ds new"
      by simp_all
    with Cons.IH [of ds] Cons show ?thesis by simp
  qed
qed

lemma prefix_replace_each_back:
  "prefix p (a @ replace_each pairs s) \<Longrightarrow>
   list_all (\<lambda>(old, new). old \<noteq> [] \<and> no_overlap p new) pairs \<Longrightarrow> prefix p (a @ s)"
proof (induction pairs arbitrary: s)
  case Nil
  then show ?case by (simp add: replace_each_Nil)
next
  case (Cons q pairs)
  obtain old new where q: "q = (old, new)" by (cases q)
  from Cons.prems q have "prefix p (a @ replace_each pairs (replace_all s old new))"
    by (simp add: replace_each_Cons replace_is_replace_all)
  with Cons.IH Cons.prems(2) have "prefix p (a @ replace_all s old new)" by simp
  with Cons.prems(2) q show ?case using prefix_replace_all_back_append by simp
qed

lemma separate_earlier_new:
  assumes "separate pairs" and "i < length pairs"
  shows "list_all (\<lambda>(old, new). old \<noteq> [] \<and> no_overlap (fst (pairs ! i)) new) (take i pairs)"
proof -
  have "\<forall>k<length (take i pairs).
          (\<lambda>(old, new). old \<noteq> [] \<and> no_overlap (fst (pairs ! i)) new) (take i pairs ! k)"
  proof (intro allI impI)
    fix k assume "k < length (take i pairs)"
    with assms(2) have k: "k < i" by simp
    with assms have "no_overlap (fst (pairs ! i)) (snd (pairs ! k))"
      using separate_nth [of pairs k i] by simp
    moreover from assms k have "fst (pairs ! k) \<noteq> []"
      using separate_nth_nonempty [of pairs k] by simp
    ultimately show "(\<lambda>(old, new). old \<noteq> [] \<and> no_overlap (fst (pairs ! i)) new) (take i pairs ! k)"
      using k by (simp add: case_prod_beta)
  qed
  then show ?thesis by (simp add: list_all_length)
qed

lemma midway_step:
  assumes sep: "separate pairs" and i: "i < length pairs"
    and sofar: "\<And>qs. only_marked pairs qs \<Longrightarrow>
                  midway i pairs qs = replace_each (take i pairs) (before pairs qs)"
  shows "only_marked pairs ps \<Longrightarrow>
         replace_all (midway i pairs ps) (fst (pairs ! i)) (snd (pairs ! i)) = midway (Suc i) pairs ps"
proof (induction ps)
  case Nil
  show ?case by simp
next
  case (Cons q ps)
  let ?old = "fst (pairs ! i)" and ?new = "snd (pairs ! i)"
  from sep i have old_ne: "?old \<noteq> []" by (rule separate_nth_nonempty)
  show ?case
  proof (cases q)
    case (Text t)
    with Cons.prems have starts: "none_starts pairs t (before pairs ps)"
      and rest: "only_marked pairs ps" by simp_all
    have "\<forall>j<length t. \<not> prefix ?old (drop j t @ midway i pairs ps)"
    proof (intro allI impI notI)
      fix j assume j: "j < length t" and pre: "prefix ?old (drop j t @ midway i pairs ps)"
      from pre have "prefix ?old (drop j t @ replace_each (take i pairs) (before pairs ps))"
        using sofar [OF rest] by simp
      then have "prefix ?old (drop j t @ before pairs ps)"
        using prefix_replace_each_back separate_earlier_new [OF sep i] by blast
      moreover from i have "pairs ! i \<in> set pairs" by simp
      ultimately show False using none_starts_positions [OF starts j] by blast
    qed
    then have "replace_all (t @ midway i pairs ps) ?old ?new
                 = t @ replace_all (midway i pairs ps) ?old ?new"
      by (rule replace_all_skip_positions)
    with Cons.IH [OF rest] Text show ?thesis by simp
  next
    case (Slot k)
    with Cons.prems have k: "k < length pairs" and rest: "only_marked pairs ps" by simp_all
    consider "k < i" | "k = i" | "i < k" by linarith
    then show ?thesis
    proof cases
      case 1
      with sep i have "no_overlap (snd (pairs ! k)) ?old"
        using separate_nth [of pairs k i] by simp
      then have "replace_all (snd (pairs ! k) @ midway i pairs ps) ?old ?new
                   = snd (pairs ! k) @ replace_all (midway i pairs ps) ?old ?new"
        by (rule replace_all_skip)
      with Cons.IH [OF rest] Slot 1 show ?thesis by simp
    next
      case 2
      have "replace_all (?old @ midway i pairs ps) ?old ?new
              = ?new @ replace_all (midway i pairs ps) ?old ?new"
        using old_ne by (rule replace_all_hit)
      with Cons.IH [OF rest] Slot 2 show ?thesis by simp
    next
      case 3
      with sep k have "no_overlap (fst (pairs ! k)) ?old"
        using separate_nth [of pairs i k] by simp
      then have "replace_all (fst (pairs ! k) @ midway i pairs ps) ?old ?new
                   = fst (pairs ! k) @ replace_all (midway i pairs ps) ?old ?new"
        by (rule replace_all_skip)
      with Cons.IH [OF rest] Slot 3 show ?thesis by simp
    qed
  qed
qed

lemma midway_replace_each:
  "separate pairs \<Longrightarrow> i \<le> length pairs \<Longrightarrow> only_marked pairs ps \<Longrightarrow>
   midway i pairs ps = replace_each (take i pairs) (before pairs ps)"
proof (induction i arbitrary: ps)
  case 0
  show ?case by (simp add: midway_0 replace_each_Nil)
next
  case (Suc i)
  from Suc.prems have i: "i < length pairs" by simp
  have sofar: "\<And>qs. only_marked pairs qs \<Longrightarrow>
                 midway i pairs qs = replace_each (take i pairs) (before pairs qs)"
    using Suc.IH Suc.prems(1) i by simp
  have old_ne: "fst (pairs ! i) \<noteq> []" using Suc.prems(1) i by (rule separate_nth_nonempty)
  have "take (Suc i) pairs = take i pairs @ [(fst (pairs ! i), snd (pairs ! i))]"
    using i by (simp add: take_Suc_conv_app_nth)
  then have "replace_each (take (Suc i) pairs) (before pairs ps)
      = replace (replace_each (take i pairs) (before pairs ps)) (fst (pairs ! i)) (snd (pairs ! i))"
    by (simp only: replace_each_snoc)
  also have "\<dots> = replace_all (midway i pairs ps) (fst (pairs ! i)) (snd (pairs ! i))"
    using sofar [OF Suc.prems(3)] old_ne by (simp add: replace_is_replace_all)
  also have "\<dots> = midway (Suc i) pairs ps"
    using midway_step [OF Suc.prems(1) i sofar Suc.prems(3)] by simp
  finally show ?case by simp
qed

text \<open>Replacing pair after pair fills every marked place, and nothing else changes.\<close>

lemma replace_each_marked:
  "separate pairs \<Longrightarrow> only_marked pairs ps \<Longrightarrow>
   replace_each pairs (before pairs ps) = after pairs ps"
  using midway_replace_each [of pairs "length pairs" ps] midway_all [of pairs ps] by simp

subsection \<open>The five pairs of the README\<close>

lemma readme_separate: "separate (readme_replacements ly ty)"
  by (simp add: readme_replacements_def)

lemma readme_title_gone:
  "untouched (fst (readme_replacements (ty - 1) ty ! 0)) (readme_replacements (ty - 1) ty)"
  by (simp add: readme_replacements_def untouched_def)

lemma readme_query_gone:
  "untouched (fst (readme_replacements (ty - 1) ty ! 1)) (drop 1 (readme_replacements (ty - 1) ty))"
  by (simp add: readme_replacements_def untouched_def)

lemma readme_edition_gone:
  "untouched (fst (readme_replacements (ty - 1) ty ! 2)) (drop 2 (readme_replacements (ty - 1) ty))"
  by (simp add: readme_replacements_def untouched_def)

lemma replace_absent: "\<not> sublist old s \<Longrightarrow> replace s old new = s"
proof -
  assume absent: "\<not> sublist old s"
  then have "old \<noteq> []" by auto
  with absent show ?thesis by (simp add: replace_is_replace_all replace_all_absent)
qed

lemma absent_replace_each:
  "\<not> sublist p s \<Longrightarrow> untouched p pairs \<Longrightarrow> \<not> sublist p (replace_each pairs s)"
proof (induction pairs arbitrary: s)
  case Nil
  then show ?case by (simp add: replace_each_Nil)
next
  case (Cons q pairs)
  obtain old new where q: "q = (old, new)" by (cases q)
  from Cons.prems(2) q have old: "old \<noteq> []" and touch: "no_overlap p new" "no_overlap new p"
    and rest: "untouched p pairs" by (simp_all add: untouched_def)
  have "\<not> sublist p (replace_all s old new)"
    using Cons.prems(1) touch by (rule absent_replace_all)
  then have "\<not> sublist p (replace_each pairs (replace s old new))"
    using Cons.IH rest old by (simp add: replace_is_replace_all)
  with q show ?case by (simp add: replace_each_Cons)
qed

text \<open>The old text of pair \<open>k\<close> is gone for good when no later new text can bring it back.\<close>

lemma gone_replace_each:
  assumes k: "k < length pairs" and later: "untouched (fst (pairs ! k)) (drop k pairs)"
  shows "\<not> sublist (fst (pairs ! k)) (replace_each pairs s)"
proof -
  let ?old = "fst (pairs ! k)" and ?new = "snd (pairs ! k)"
  have cut: "drop k pairs = (?old, ?new) # drop (Suc k) pairs"
    using k by (simp add: Cons_nth_drop_Suc)
  with later have old: "?old \<noteq> []" and touch: "no_overlap ?old ?new" "no_overlap ?new ?old"
    and rest: "untouched ?old (drop (Suc k) pairs)"
    by (simp_all add: untouched_def case_prod_beta)
  have "pairs = take k pairs @ (?old, ?new) # drop (Suc k) pairs"
    using cut by (metis append_take_drop_id)
  then have "replace_each pairs s
      = replace_each (drop (Suc k) pairs) (replace (replace_each (take k pairs) s) ?old ?new)"
    by (metis replace_each_append replace_each_Cons)
  moreover have "\<not> sublist ?old (replace_all (replace_each (take k pairs) s) ?old ?new)"
    using old touch by (rule old_gone_replace_all)
  ultimately show ?thesis
    using absent_replace_each [OF _ rest] old by (simp add: replace_is_replace_all)
qed

lemma replace_each_absent:
  "list_all (\<lambda>(old, new). \<not> sublist old s) pairs \<Longrightarrow> replace_each pairs s = s"
proof (induction pairs)
  case Nil
  show ?case by (simp add: replace_each_Nil)
next
  case (Cons q pairs)
  obtain old new where q: "q = (old, new)" by (cases q)
  with Cons.prems have "replace s old new = s" by (simp add: replace_absent)
  with Cons q show ?case by (simp add: replace_each_Cons)
qed

lemma separate_earlier_untouched:
  assumes "separate pairs" and "k < length pairs"
  shows "untouched (fst (pairs ! k)) (take k pairs)"
proof -
  have "\<forall>i<length (take k pairs).
          (\<lambda>(old, new). old \<noteq> [] \<and> no_overlap (fst (pairs ! k)) new \<and> no_overlap new (fst (pairs ! k)))
            (take k pairs ! i)"
  proof (intro allI impI)
    fix i assume "i < length (take k pairs)"
    with assms(2) have i: "i < k" by simp
    with assms have "no_overlap (fst (pairs ! k)) (snd (pairs ! i))"
      and "no_overlap (snd (pairs ! i)) (fst (pairs ! k))"
      using separate_nth [of pairs i k] by simp_all
    moreover from assms i have "fst (pairs ! i) \<noteq> []"
      using separate_nth_nonempty [of pairs i] by simp
    ultimately show "(\<lambda>(old, new). old \<noteq> [] \<and> no_overlap (fst (pairs ! k)) new
        \<and> no_overlap new (fst (pairs ! k))) (take k pairs ! i)"
      using i by (simp add: case_prod_beta)
  qed
  then show ?thesis by (simp add: untouched_def list_all_length)
qed

text \<open>A pair whose old text is absent from the README can be left out.\<close>

lemma replace_each_skip_absent:
  assumes sep: "separate pairs" and k: "k < length pairs"
    and absent: "\<not> sublist (fst (pairs ! k)) s"
  shows "replace_each pairs s = replace_each (take k pairs @ drop (Suc k) pairs) s"
proof -
  let ?old = "fst (pairs ! k)" and ?new = "snd (pairs ! k)"
  have "pairs = take k pairs @ (?old, ?new) # drop (Suc k) pairs"
    using k by (metis id_take_nth_drop prod.collapse)
  then have "replace_each pairs s
      = replace_each (drop (Suc k) pairs) (replace (replace_each (take k pairs) s) ?old ?new)"
    by (metis replace_each_append replace_each_Cons)
  moreover have "\<not> sublist ?old (replace_each (take k pairs) s)"
    using absent separate_earlier_untouched [OF sep k] by (rule absent_replace_each)
  ultimately show ?thesis by (simp add: replace_absent replace_each_append)
qed

lemma present_replace_each:
  "sublist p s \<Longrightarrow>
   list_all (\<lambda>(old, new). old \<noteq> [] \<and> no_overlap p old \<and> no_overlap old p) pairs \<Longrightarrow>
   sublist p (replace_each pairs s)"
proof (induction pairs arbitrary: s)
  case Nil
  then show ?case by (simp add: replace_each_Nil)
next
  case (Cons q pairs)
  obtain old new where q: "q = (old, new)" by (cases q)
  from Cons.prems(2) q have old: "old \<noteq> []" and touch: "no_overlap p old" "no_overlap old p"
    and rest: "list_all (\<lambda>(old, new). old \<noteq> [] \<and> no_overlap p old \<and> no_overlap old p) pairs"
    by simp_all
  have "sublist p (replace_all s old new)"
    using Cons.prems(1) touch by (rule present_replace_all)
  then have "sublist p (replace_each pairs (replace s old new))"
    using Cons.IH rest old by (simp add: replace_is_replace_all)
  with q show ?case by (simp add: replace_each_Cons)
qed

lemma separate_head_kept:
  "separate ((old, new) # later) \<Longrightarrow>
   list_all (\<lambda>(old', new'). old' \<noteq> [] \<and> no_overlap new old' \<and> no_overlap old' new) later"
proof -
  assume sep: "separate ((old, new) # later)"
  have "\<forall>i<length later. (\<lambda>(old', new'). old' \<noteq> [] \<and> no_overlap new old' \<and> no_overlap old' new) (later ! i)"
  proof (intro allI impI)
    fix i assume i: "i < length later"
    then have "no_overlap (snd (((old, new) # later) ! 0)) (fst (((old, new) # later) ! Suc i))
       \<and> no_overlap (fst (((old, new) # later) ! Suc i)) (fst (((old, new) # later) ! 0))
       \<and> no_overlap (fst (((old, new) # later) ! Suc i)) (snd (((old, new) # later) ! 0))"
      using separate_nth [OF sep, of 0 "Suc i"] by simp
    moreover have "fst (((old, new) # later) ! Suc i) \<noteq> []"
      using separate_nth_nonempty [OF sep, of "Suc i"] i by simp
    ultimately show "(\<lambda>(old', new'). old' \<noteq> [] \<and> no_overlap new old' \<and> no_overlap old' new) (later ! i)"
      by (simp add: case_prod_beta)
  qed
  then show ?thesis by (simp add: list_all_length)
qed

subsection \<open>The year resolver\<close>

lemma this_year_settled:
  "settled y c \<Longrightarrow> fst (this_year now c) = y \<and> settled y (snd (this_year now c))"
  by (simp add: settled_def this_year_def)

lemma last_year_settled:
  "settled y c \<Longrightarrow> fst (last_year now c) = y - 1 \<and> settled y (snd (last_year now c))"
  by (auto simp: settled_def last_year_def this_year_def)

lemma this_year_first:
  "fst (this_year now empty_cache) = now \<and> settled now (snd (this_year now empty_cache))"
  by (simp add: settled_def this_year_def empty_cache_def)

lemma last_year_first:
  "fst (last_year now empty_cache) = now - 1 \<and> settled now (snd (last_year now empty_cache))"
  by (simp add: settled_def last_year_def this_year_def empty_cache_def)

lemma year_calls_settled:
  "settled y c \<Longrightarrow> year_calls calls c = map (answer y) calls"
proof (induction calls c rule: year_calls.induct)
  case (1 c)
  show ?case by simp
next
  case (2 now rest c)
  obtain v c' where step: "this_year now c = (v, c')" by (cases "this_year now c")
  with this_year_settled [OF "2.prems", of now] have "v = y" "settled y c'" by simp_all
  with "2.IH" [of "(v, c')" v c'] step show ?case by (simp add: answer_def)
next
  case (3 now rest c)
  obtain v c' where step: "last_year now c = (v, c')" by (cases "last_year now c")
  with last_year_settled [OF "3.prems", of now] have "v = y - 1" "settled y c'" by simp_all
  with "3.IH" [of "(v, c')" v c'] step show ?case by (simp add: answer_def)
qed

subsection \<open>The command runner\<close>

lemma announced_simps [simp]:
  "announced [] = []" "announced (c # cs) = Printed c # Ran c # announced cs"
  by (simp_all add: announced_def)

lemma ran_append: "ran (xs @ ys) = ran xs @ ran ys"
  by (induction xs rule: ran.induct) simp_all

lemma ran_announced: "ran (announced cmds) = cmds"
  by (induction cmds) simp_all

lemma subprocess_run_ok:
  "CHR 0x00 \<notin> set c \<Longrightarrow> fst (sh c (world st)) = 0 \<Longrightarrow>
   subprocess_run sh c (print c st)
     = (None, \<lparr>events = events st @ [Printed c, Ran c], world = snd (sh c (world st))\<rparr>)"
  by (cases "sh c (world st)") (simp add: subprocess_run_def print_def)

lemma subprocess_run_status:
  "CHR 0x00 \<notin> set c \<Longrightarrow> fst (sh c (world st)) \<noteq> 0 \<Longrightarrow>
   subprocess_run sh c (print c st)
     = (Some (CalledProcessError (fst (sh c (world st))) c),
        \<lparr>events = events st @ [Printed c, Ran c], world = snd (sh c (world st))\<rparr>)"
  by (cases "sh c (world st)") (simp add: subprocess_run_def print_def)

lemma subprocess_run_nul:
  "CHR 0x00 \<in> set c \<Longrightarrow>
   subprocess_run sh c (print c st)
     = (Some (ValueError ''embedded null byte''),
        \<lparr>events = events st @ [Printed c], world = world st\<rparr>)"
  by (simp add: subprocess_run_def print_def)

lemma subprocess_run_None:
  "subprocess_run sh c (print c st) = (None, st') \<Longrightarrow>
   CHR 0x00 \<notin> set c \<and> fst (sh c (world st)) = 0 \<and>
   st' = \<lparr>events = events st @ [Printed c, Ran c], world = snd (sh c (world st))\<rparr>"
  by (auto simp: subprocess_run_def print_def split: prod.splits if_splits)

lemma run_lines_blank_skipped:
  "run_lines sh (filter (\<lambda>l. l \<noteq> []) ls) st = run_lines sh ls st"
  by (induction ls arbitrary: st) (auto split: prod.splits option.splits)

lemma run_lines_append:
  "run_lines sh (xs @ ys) st =
     (case run_lines sh xs st of (Some e, st') \<Rightarrow> (Some e, st') | (None, st') \<Rightarrow> run_lines sh ys st')"
  by (induction xs arbitrary: st) (auto split: prod.splits option.splits)

lemma worlds_0 [simp]: "worlds sh w cs ! 0 = w"
  by (cases cs) simp_all

lemma fails_at_0:
  "fails_at sh w (c # cs) 0 \<longleftrightarrow> CHR 0x00 \<in> set c \<or> fst (sh c w) \<noteq> 0"
  by (simp add: fails_at_def)

lemma fails_at_Suc:
  "fails_at sh w (c # cs) (Suc i) \<longleftrightarrow> fails_at sh (snd (sh c w)) cs i"
  by (simp add: fails_at_def)

text \<open>When no command fails, all of them are printed and run.\<close>

lemma run_lines_no_failure:
  "\<forall>c\<in>set cs. c \<noteq> [] \<Longrightarrow> \<forall>i<length cs. \<not> fails_at sh (world st) cs i \<Longrightarrow>
   run_lines sh cs st
     = (None, \<lparr>events = events st @ announced cs, world = worlds sh (world st) cs ! length cs\<rparr>)"
proof (induction cs arbitrary: st)
  case Nil
  show ?case by simp
next
  case (Cons c cs)
  let ?st1 = "\<lparr>events = events st @ [Printed c, Ran c], world = snd (sh c (world st))\<rparr>"
  from Cons.prems(2) have "\<not> fails_at sh (world st) (c # cs) 0" by blast
  then have ok: "CHR 0x00 \<notin> set c" "fst (sh c (world st)) = 0" by (simp_all add: fails_at_0)
  then have step: "subprocess_run sh c (print c st) = (None, ?st1)" by (rule subprocess_run_ok)
  have "\<forall>i<length cs. \<not> fails_at sh (world ?st1) cs i"
  proof (intro allI impI)
    fix i assume "i < length cs"
    then have "Suc i < length (c # cs)" by simp
    with Cons.prems(2) have "\<not> fails_at sh (world st) (c # cs) (Suc i)" by blast
    then show "\<not> fails_at sh (world ?st1) cs i" by (simp add: fails_at_Suc)
  qed
  moreover from Cons.prems(1) have "\<forall>c\<in>set cs. c \<noteq> []" by simp
  ultimately have "run_lines sh cs ?st1
     = (None, \<lparr>events = events ?st1 @ announced cs,
               world = worlds sh (world ?st1) cs ! length cs\<rparr>)"
    by (rule Cons.IH [rotated])
  moreover from Cons.prems(1) have "c \<noteq> []" by simp
  ultimately show ?case using step by simp
qed

text \<open>The first command that fails is the last one printed, and nothing follows it.\<close>

lemma run_lines_first_failure:
  "\<forall>c\<in>set cs. c \<noteq> [] \<Longrightarrow> k < length cs \<Longrightarrow> fails_at sh (world st) cs k \<Longrightarrow>
   \<forall>i<k. \<not> fails_at sh (world st) cs i \<Longrightarrow>
   run_lines sh cs st
     = (if CHR 0x00 \<in> set (cs ! k)
        then (Some (ValueError ''embedded null byte''),
              \<lparr>events = events st @ announced (take k cs) @ [Printed (cs ! k)],
               world = worlds sh (world st) cs ! k\<rparr>)
        else (Some (CalledProcessError (fst (sh (cs ! k) (worlds sh (world st) cs ! k))) (cs ! k)),
              \<lparr>events = events st @ announced (take k cs) @ [Printed (cs ! k), Ran (cs ! k)],
               world = worlds sh (world st) cs ! Suc k\<rparr>))"
proof (induction cs arbitrary: k st)
  case Nil
  then show ?case by simp
next
  case (Cons c cs)
  from Cons.prems(1) have c_ne: "c \<noteq> []" and rest_ne: "\<forall>c\<in>set cs. c \<noteq> []" by simp_all
  show ?case
  proof (cases k)
    case 0
    with Cons.prems(3) have bad: "CHR 0x00 \<in> set c \<or> fst (sh c (world st)) \<noteq> 0"
      by (simp add: fails_at_0)
    show ?thesis
    proof (cases "CHR 0x00 \<in> set c")
      case True
      then have "subprocess_run sh c (print c st)
          = (Some (ValueError ''embedded null byte''),
             \<lparr>events = events st @ [Printed c], world = world st\<rparr>)"
        by (rule subprocess_run_nul)
      with True 0 c_ne show ?thesis by simp
    next
      case False
      with bad have rc: "fst (sh c (world st)) \<noteq> 0" by simp
      with False have "subprocess_run sh c (print c st)
          = (Some (CalledProcessError (fst (sh c (world st))) c),
             \<lparr>events = events st @ [Printed c, Ran c], world = snd (sh c (world st))\<rparr>)"
        by (rule subprocess_run_status)
      with False 0 c_ne show ?thesis by simp
    qed
  next
    case (Suc k')
    let ?st1 = "\<lparr>events = events st @ [Printed c, Ran c], world = snd (sh c (world st))\<rparr>"
    from Cons.prems(4) Suc have "\<not> fails_at sh (world st) (c # cs) 0" by simp
    then have ok: "CHR 0x00 \<notin> set c" "fst (sh c (world st)) = 0" by (simp_all add: fails_at_0)
    then have step: "subprocess_run sh c (print c st) = (None, ?st1)" by (rule subprocess_run_ok)
    from Cons.prems(2) Suc have k': "k' < length cs" by simp
    from Cons.prems(3) Suc have bad: "fails_at sh (world ?st1) cs k'" by (simp add: fails_at_Suc)
    have good: "\<forall>i<k'. \<not> fails_at sh (world ?st1) cs i"
    proof (intro allI impI)
      fix i assume "i < k'"
      with Suc have "Suc i < k" by simp
      with Cons.prems(4) have "\<not> fails_at sh (world st) (c # cs) (Suc i)" by blast
      then show "\<not> fails_at sh (world ?st1) cs i" by (simp add: fails_at_Suc)
    qed
    from Cons.IH [OF rest_ne k' bad good] step c_ne Suc show ?thesis by simp
  qed
qed

lemma run_lines_success_events:
  "run_lines sh ls st = (None, st') \<Longrightarrow>
   events st' = events st @ announced (filter (\<lambda>l. l \<noteq> []) ls)"
proof (induction ls arbitrary: st)
  case Nil
  then show ?case by simp
next
  case (Cons l ls)
  show ?case
  proof (cases "l = []")
    case True
    with Cons show ?thesis by simp
  next
    case False
    obtain e st1 where step: "subprocess_run sh l (print l st) = (e, st1)"
      by (cases "subprocess_run sh l (print l st)")
    with Cons.prems False have e: "e = None" and rest: "run_lines sh ls st1 = (None, st')"
      by (auto split: option.splits)
    from step e have "st1 = \<lparr>events = events st @ [Printed l, Ran l], world = snd (sh l (world st))\<rparr>"
      using subprocess_run_None by blast
    then have "events st1 = events st @ [Printed l, Ran l]" by simp
    with Cons.IH [OF rest] False show ?thesis by simp
  qed
qed

subsection \<open>Evaluating the issue bodies\<close>

lemma str_int_years:
  "str_int 2016 = ''2016''" "str_int 2017 = ''2017''" "str_int 2018 = ''2018''"
  "str_int 2019 = ''2019''" "str_int 2020 = ''2020''" "str_int 2021 = ''2021''"
  "str_int 2022 = ''2022''" "str_int 2023 = ''2023''" "str_int 2024 = ''2024''"
  by (simp_all add: str_int_def str_nat.simps digit_char_def)

lemma range_down_2024:
  "range_down 2024 (2016 - 1) = [2024, 2023, 2022, 2021, 2020, 2019, 2018, 2017, 2016]"
  by (simp add: range_down_def upt_rec)

lemma issue1_header:
  "textwrap_dedent (''    This is an open issue where you can comment and add resources that might come in handy for NaNoGenMo.\<newline>''
          @ ''\<newline>''
          @ ''    There are already a ton of resources on the old resources threads of previous editions:\<newline>''
          @ ''\<newline>''
          @ ''    '')
   = ''This is an open issue where you can comment and add resources that might come in handy for NaNoGenMo.\<newline>''
     @ ''\<newline>''
     @ ''There are already a ton of resources on the old resources threads of previous editions:\<newline>''
     @ ''\<newline>''"
  by (simp add: textwrap_dedent_def is_indent_char_def)

subsection \<open>The README update\<close>

lemma readme_pairs_length: "length (readme_replacements ly ty) = 5"
  by (simp add: readme_replacements_def)

lemma readme_anchors_untouched:
  "untouched (fst (readme_replacements ly ty ! 3)) (take 3 (readme_replacements ly ty))"
  "untouched (fst (readme_replacements ly ty ! 4)) (take 3 (readme_replacements ly ty))"
  by (simp_all add: readme_replacements_def untouched_def)

lemma readme_first_three_gone:
  assumes "k < 3"
  shows "\<not> sublist (fst (readme_replacements (ty - 1) ty ! k)) (readme_text (ty - 1) ty readme)"
proof -
  let ?R = "readme_replacements (ty - 1) ty"
  from assms consider "k = 0" | "k = 1" | "k = 2" by linarith
  then have "untouched (fst (?R ! k)) (drop k ?R)"
  proof cases
    case 1
    then show ?thesis using readme_title_gone [of ty] by simp
  next
    case 2
    then show ?thesis using readme_query_gone [of ty] by simp
  next
    case 3
    then show ?thesis using readme_edition_gone [of ty] by simp
  qed
  moreover from assms have "k < length ?R" by (simp add: readme_pairs_length)
  ultimately show ?thesis unfolding readme_text_def by (rule gone_replace_each [rotated])
qed

lemma readme_text_without_anchors:
  assumes "\<not> sublist (fst (readme_replacements ly ty ! 3)) readme"
    and "\<not> sublist (fst (readme_replacements ly ty ! 4)) readme"
  shows "readme_text ly ty readme = replace_each (take 3 (readme_replacements ly ty)) readme"
    and "\<not> sublist (fst (readme_replacements ly ty ! 3)) (readme_text ly ty readme)"
    and "\<not> sublist (fst (readme_replacements ly ty ! 4)) (readme_text ly ty readme)"
proof -
  let ?R = "readme_replacements ly ty"
  let ?s3 = "replace_each (take 3 ?R) readme"
  have a3: "\<not> sublist (fst (?R ! 3)) ?s3"
    using assms(1) readme_anchors_untouched(1) by (rule absent_replace_each)
  have a4: "\<not> sublist (fst (?R ! 4)) ?s3"
    using assms(2) readme_anchors_untouched(2) by (rule absent_replace_each)
  have "?R = take 3 ?R @ [(fst (?R ! 3), snd (?R ! 3)), (fst (?R ! 4), snd (?R ! 4))]"
    by (simp add: readme_replacements_def)
  then have "replace_each ?R readme
      = replace (replace ?s3 (fst (?R ! 3)) (snd (?R ! 3))) (fst (?R ! 4)) (snd (?R ! 4))"
    by (metis replace_each_append replace_each_Cons replace_each_Nil)
  with a3 a4 show same: "readme_text ly ty readme = ?s3"
    by (simp add: readme_text_def replace_absent)
  from a3 same show "\<not> sublist (fst (?R ! 3)) (readme_text ly ty readme)" by simp
  from a4 same show "\<not> sublist (fst (?R ! 4)) (readme_text ly ty readme)" by simp
qed

lemma list_all_five:
  "length xs = 5 \<Longrightarrow> P (xs ! 0) \<Longrightarrow> P (xs ! 1) \<Longrightarrow> P (xs ! 2) \<Longrightarrow> P (xs ! 3) \<Longrightarrow> P (xs ! 4)
   \<Longrightarrow> list_all P xs"
proof -
  assume len: "length xs = 5" and p: "P (xs ! 0)" "P (xs ! 1)" "P (xs ! 2)" "P (xs ! 3)" "P (xs ! 4)"
  have "\<forall>k<length xs. P (xs ! k)"
  proof (intro allI impI)
    fix k assume "k < length xs"
    with len consider "k = 0" | "k = 1" | "k = 2" | "k = 3" | "k = 4" by linarith
    then show "P (xs ! k)" using p by cases simp_all
  qed
  then show ?thesis by (simp add: list_all_length)
qed

lemma second_pass_noop_without_list_patterns:
  assumes "\<not> sublist (fst (readme_replacements (ty - 1) ty ! 3)) readme"
    and "\<not> sublist (fst (readme_replacements (ty - 1) ty ! 4)) readme"
  shows "readme_text (ty - 1) ty (readme_text (ty - 1) ty readme) = readme_text (ty - 1) ty readme"
proof -
  let ?R = "readme_replacements (ty - 1) ty"
  let ?once = "readme_text (ty - 1) ty readme"
  have "list_all (\<lambda>(old, new). \<not> sublist old ?once) ?R"
  proof (rule list_all_five)
    show "length ?R = 5" by (rule readme_pairs_length)
    show "(\<lambda>(old, new). \<not> sublist old ?once) (?R ! 0)"
      using readme_first_three_gone [of 0 ty readme] by (simp add: case_prod_beta)
    show "(\<lambda>(old, new). \<not> sublist old ?once) (?R ! 1)"
      using readme_first_three_gone [of 1 ty readme] by (simp add: case_prod_beta)
    show "(\<lambda>(old, new). \<not> sublist old ?once) (?R ! 2)"
      using readme_first_three_gone [of 2 ty readme] by (simp add: case_prod_beta)
    show "(\<lambda>(old, new). \<not> sublist old ?once) (?R ! 3)"
      using readme_text_without_anchors(2) [OF assms] by (simp add: case_prod_beta)
    show "(\<lambda>(old, new). \<not> sublist old ?once) (?R ! 4)"
      using readme_text_without_anchors(3) [OF assms] by (simp add: case_prod_beta)
  qed
  then show ?thesis unfolding readme_text_def by (rule replace_each_absent)
qed

lemma count_list_prefix_drop:
  "prefix old s \<Longrightarrow> count_list s x = count_list old x + count_list (drop (length old) s) x"
proof -
  assume "prefix old s"
  then obtain rest where "s = old @ rest" by (auto simp: prefix_def)
  then show ?thesis by simp
qed

lemma count_replace_all_mono:
  "count_list old x \<le> count_list new x \<Longrightarrow>
   count_list s x \<le> count_list (replace_all s old new) x"
proof (induction s old new rule: replace_all.induct)
  case (1 old new)
  show ?case by simp
next
  case (2 c cs old new)
  show ?case
  proof (cases "old \<noteq> [] \<and> prefix old (c # cs)")
    case True
    then have "prefix old (c # cs)" by simp
    then have "count_list (c # cs) x = count_list old x + count_list (drop (length old) (c # cs)) x"
      by (rule count_list_prefix_drop)
    moreover have "count_list (drop (length old) (c # cs)) x
        \<le> count_list (replace_all (drop (length old) (c # cs)) old new) x"
      using "2.IH"(1) [OF True] "2.prems" by blast
    moreover have "replace_all (c # cs) old new
        = new @ replace_all (drop (length old) (c # cs)) old new"
      using True by simp
    ultimately show ?thesis using "2.prems" by simp
  next
    case False
    then have "replace_all (c # cs) old new = c # replace_all cs old new" by auto
    moreover have "count_list cs x \<le> count_list (replace_all cs old new) x"
      using "2.IH"(2) [OF False] "2.prems" by blast
    ultimately show ?thesis by simp
  qed
qed

lemma count_replace_all_same:
  "count_list old x = count_list new x \<Longrightarrow>
   count_list (replace_all s old new) x = count_list s x"
proof (induction s old new rule: replace_all.induct)
  case (1 old new)
  show ?case by simp
next
  case (2 c cs old new)
  show ?case
  proof (cases "old \<noteq> [] \<and> prefix old (c # cs)")
    case True
    then have "prefix old (c # cs)" by simp
    then have "count_list (c # cs) x = count_list old x + count_list (drop (length old) (c # cs)) x"
      by (rule count_list_prefix_drop)
    moreover have "count_list (replace_all (drop (length old) (c # cs)) old new) x
        = count_list (drop (length old) (c # cs)) x"
      using "2.IH"(1) [OF True] "2.prems" by blast
    moreover have "replace_all (c # cs) old new
        = new @ replace_all (drop (length old) (c # cs)) old new"
      using True by simp
    ultimately show ?thesis using "2.prems" by simp
  next
    case False
    then have "replace_all (c # cs) old new = c # replace_all cs old new" by auto
    moreover have "count_list (replace_all cs old new) x = count_list cs x"
      using "2.IH"(2) [OF False] "2.prems" by blast
    ultimately show ?thesis by simp
  qed
qed

lemma count_replace_all_grows:
  "old \<noteq> [] \<Longrightarrow> sublist old s \<Longrightarrow> count_list old x < count_list new x \<Longrightarrow>
   count_list s x < count_list (replace_all s old new) x"
proof (induction s old new rule: replace_all.induct)
  case (1 old new)
  then show ?case by simp
next
  case (2 c cs old new)
  show ?case
  proof (cases "old \<noteq> [] \<and> prefix old (c # cs)")
    case True
    then have "prefix old (c # cs)" by simp
    then have "count_list (c # cs) x = count_list old x + count_list (drop (length old) (c # cs)) x"
      by (rule count_list_prefix_drop)
    moreover have "count_list (drop (length old) (c # cs)) x
        \<le> count_list (replace_all (drop (length old) (c # cs)) old new) x"
      using "2.prems"(3) by (simp add: count_replace_all_mono)
    moreover have "replace_all (c # cs) old new
        = new @ replace_all (drop (length old) (c # cs)) old new"
      using True by simp
    ultimately show ?thesis using "2.prems"(3) by simp
  next
    case False
    then have step: "replace_all (c # cs) old new = c # replace_all cs old new" by auto
    from False "2.prems"(1,2) have "sublist old cs" by (simp add: sublist_Cons_right)
    then have "count_list cs x < count_list (replace_all cs old new) x"
      using "2.IH"(2) [OF False] "2.prems"(1,3) by blast
    with step show ?thesis by simp
  qed
qed

lemma count_list_str_int [simp]: "\<not> year_char x \<Longrightarrow> count_list (str_int i) x = 0"
  using str_int_year_char [of x i] by (auto simp: count_list_0_iff)

lemma readme_anchors_kept:
  "list_all (\<lambda>(old, new). old \<noteq> [] \<and> no_overlap (fst (readme_replacements ly ty ! 3)) old
       \<and> no_overlap old (fst (readme_replacements ly ty ! 3))) (take 3 (readme_replacements ly ty))"
  "list_all (\<lambda>(old, new). old \<noteq> [] \<and> no_overlap (fst (readme_replacements ly ty ! 4)) old
       \<and> no_overlap old (fst (readme_replacements ly ty ! 4))) (take 3 (readme_replacements ly ty))"
  by (simp_all add: readme_replacements_def)

lemma readme_anchors_apart:
  "no_overlap (fst (readme_replacements ly ty ! 3)) (fst (readme_replacements ly ty ! 4))"
  "no_overlap (fst (readme_replacements ly ty ! 4)) (fst (readme_replacements ly ty ! 3))"
  by (simp_all add: readme_replacements_def)

lemma readme_anchors_nonempty:
  "fst (readme_replacements ly ty ! 3) \<noteq> []" "fst (readme_replacements ly ty ! 4) \<noteq> []"
  by (simp_all add: readme_replacements_def)

lemma readme_anchor_in_new:
  "sublist (fst (readme_replacements ly ty ! 3)) (snd (readme_replacements ly ty ! 3))"
  "sublist (fst (readme_replacements ly ty ! 4)) (snd (readme_replacements ly ty ! 4))"
proof -
  have "snd (readme_replacements ly ty ! 3)
      = (''* ['' @ str_int ly @ ''](https://github.com/NaNoGenMo/'' @ str_int ly @ '')\<newline>'')
        @ fst (readme_replacements ly ty ! 3)"
    by (simp add: readme_replacements_def)
  then show "sublist (fst (readme_replacements ly ty ! 3)) (snd (readme_replacements ly ty ! 3))"
    by (metis sublist_append_leftI)
  have "snd (readme_replacements ly ty ! 4)
      = fst (readme_replacements ly ty ! 4)
        @ (''\<newline>* ['' @ str_int ly @ ''](https://github.com/NaNoGenMo/'' @ str_int ly @ ''/issues/1)'')"
    by (simp add: readme_replacements_def)
  then show "sublist (fst (readme_replacements ly ty ! 4)) (snd (readme_replacements ly ty ! 4))"
    by (metis sublist_append_rightI)
qed

lemma readme_stars:
  "list_all (\<lambda>(old, new). old \<noteq> [] \<and> count_list old CHR ''*'' = count_list new CHR ''*'')
     (take 3 (readme_replacements ly ty))"
  "count_list (fst (readme_replacements ly ty ! 3)) CHR ''*''
     < count_list (snd (readme_replacements ly ty ! 3)) CHR ''*''"
  "count_list (fst (readme_replacements ly ty ! 4)) CHR ''*''
     < count_list (snd (readme_replacements ly ty ! 4)) CHR ''*''"
  by (simp_all add: readme_replacements_def)

lemma count_replace_each_same:
  "list_all (\<lambda>(old, new). old \<noteq> [] \<and> count_list old x = count_list new x) pairs \<Longrightarrow>
   count_list (replace_each pairs s) x = count_list s x"
proof (induction pairs arbitrary: s)
  case Nil
  show ?case by (simp add: replace_each_Nil)
next
  case (Cons q pairs)
  obtain old new where q: "q = (old, new)" by (cases q)
  with Cons.prems have "old \<noteq> []" "count_list old x = count_list new x" by simp_all
  then have "count_list (replace s old new) x = count_list s x"
    by (simp add: replace_is_replace_all count_replace_all_same)
  with Cons q show ?case by (simp add: replace_each_Cons)
qed

lemma readme_text_steps:
  "readme_text ly ty s =
     replace_all
       (replace_all (replace_each (take 3 (readme_replacements ly ty)) s)
          (fst (readme_replacements ly ty ! 3)) (snd (readme_replacements ly ty ! 3)))
       (fst (readme_replacements ly ty ! 4)) (snd (readme_replacements ly ty ! 4))"
proof -
  let ?R = "readme_replacements ly ty"
  have "?R = take 3 ?R @ [(fst (?R ! 3), snd (?R ! 3)), (fst (?R ! 4), snd (?R ! 4))]"
    by (simp add: readme_replacements_def)
  then have "replace_each ?R s
      = replace (replace (replace_each (take 3 ?R) s) (fst (?R ! 3)) (snd (?R ! 3)))
          (fst (?R ! 4)) (snd (?R ! 4))"
    by (metis replace_each_append replace_each_Cons replace_each_Nil)
  then show ?thesis
    by (simp add: readme_text_def replace_is_replace_all readme_anchors_nonempty)
qed

text \<open>A list pattern that is present makes the README longer by an entry.\<close>

lemma readme_text_grows:
  assumes "sublist (fst (readme_replacements ly ty ! 3)) s
           \<or> sublist (fst (readme_replacements ly ty ! 4)) s"
  shows "count_list s CHR ''*'' < count_list (readme_text ly ty s) CHR ''*''"
proof -
  let ?R = "readme_replacements ly ty"
  let ?s3 = "replace_each (take 3 ?R) s"
  let ?t3 = "replace_all ?s3 (fst (?R ! 3)) (snd (?R ! 3))"
  let ?t4 = "replace_all ?t3 (fst (?R ! 4)) (snd (?R ! 4))"
  have c3: "count_list ?s3 CHR ''*'' = count_list s CHR ''*''"
    using readme_stars(1) by (rule count_replace_each_same)
  have m3: "count_list ?s3 CHR ''*'' \<le> count_list ?t3 CHR ''*''"
    by (rule count_replace_all_mono) (rule less_imp_le, rule readme_stars(2))
  have m4: "count_list ?t3 CHR ''*'' \<le> count_list ?t4 CHR ''*''"
    by (rule count_replace_all_mono) (rule less_imp_le, rule readme_stars(3))
  from assms have "count_list ?s3 CHR ''*'' < count_list ?t4 CHR ''*''"
  proof
    assume "sublist (fst (?R ! 3)) s"
    then have "sublist (fst (?R ! 3)) ?s3"
      using readme_anchors_kept(1) by (rule present_replace_each)
    then have "count_list ?s3 CHR ''*'' < count_list ?t3 CHR ''*''"
      using readme_anchors_nonempty(1) readme_stars(2) by (simp add: count_replace_all_grows)
    with m4 show ?thesis by simp
  next
    assume "sublist (fst (?R ! 4)) s"
    then have "sublist (fst (?R ! 4)) ?s3"
      using readme_anchors_kept(2) by (rule present_replace_each)
    then have "sublist (fst (?R ! 4)) ?t3"
      using readme_anchors_apart(2) readme_anchors_apart(1) by (rule present_replace_all)
    then have "count_list ?t3 CHR ''*'' < count_list ?t4 CHR ''*''"
      using readme_anchors_nonempty(2) readme_stars(3) by (simp add: count_replace_all_grows)
    with m3 show ?thesis by simp
  qed
  with c3 show ?thesis by (simp add: readme_text_steps)
qed

text \<open>A list pattern that is present is still present after the update.\<close>

lemma readme_anchor_survives:
  assumes "sublist (fst (readme_replacements ly ty ! 3)) s
           \<or> sublist (fst (readme_replacements ly ty ! 4)) s"
  shows "sublist (fst (readme_replacements ly ty ! 3)) (readme_text ly ty s)
         \<or> sublist (fst (readme_replacements ly ty ! 4)) (readme_text ly ty s)"
proof -
  let ?R = "readme_replacements ly ty"
  let ?s3 = "replace_each (take 3 ?R) s"
  let ?t3 = "replace_all ?s3 (fst (?R ! 3)) (snd (?R ! 3))"
  let ?t4 = "replace_all ?t3 (fst (?R ! 4)) (snd (?R ! 4))"
  from assms have "sublist (fst (?R ! 3)) ?t4 \<or> sublist (fst (?R ! 4)) ?t4"
  proof
    assume "sublist (fst (?R ! 3)) s"
    then have "sublist (fst (?R ! 3)) ?s3"
      using readme_anchors_kept(1) by (rule present_replace_each)
    then have "sublist (snd (?R ! 3)) ?t3"
      using readme_anchors_nonempty(1) by (simp add: new_present_replace_all)
    then have "sublist (fst (?R ! 3)) ?t3"
      using readme_anchor_in_new(1) sublist_order.order_trans by blast
    then have "sublist (fst (?R ! 3)) ?t4"
      using readme_anchors_apart by (rule present_replace_all)
    then show ?thesis by simp
  next
    assume "sublist (fst (?R ! 4)) s"
    then have "sublist (fst (?R ! 4)) ?s3"
      using readme_anchors_kept(2) by (rule present_replace_each)
    then have "sublist (fst (?R ! 4)) ?t3"
      using readme_anchors_apart(2) readme_anchors_apart(1) by (rule present_replace_all)
    then have "sublist (snd (?R ! 4)) ?t4"
      using readme_anchors_nonempty(2) by (simp add: new_present_replace_all)
    then have "sublist (fst (?R ! 4)) ?t4"
      using readme_anchor_in_new(2) sublist_order.order_trans by blast
    then show ?thesis by simp
  qed
  then show ?thesis by (simp add: readme_text_steps)
qed

lemma readme_2024:
  "readme_replacements 2023 2024 =
     [(''# NaNoGenMo 2023'', ''# NaNoGenMo 2024''),
      (''NaNoGenMo/2023/issues?q=label'', ''NaNoGenMo/2024/issues?q=label''),
      (''This is the 2023 edition.'', ''This is the 2024 edition.''),
      (''* [2022](https://github.com/NaNoGenMo/2022)'',
       ''* [2023](https://github.com/NaNoGenMo/2023)\<newline>* [2022](https://github.com/NaNoGenMo/2022)''),
      (''* [2022](https://github.com/NaNoGenMo/2022/issues/1)'',
       ''* [2022](https://github.com/NaNoGenMo/2022/issues/1)\<newline>* [2023](https://github.com/NaNoGenMo/2023/issues/1)'')]"
  by (simp add: readme_replacements_def str_int_years)

lemma update_readme_written:
  "fst (update_readme sh ly ty readme st) = readme_text ly ty readme"
  by (simp add: update_readme_def Let_def split: prod.splits option.splits)

lemma readme_title_replaced:
  assumes "sublist (fst (readme_replacements ly ty ! 0)) s"
  shows "sublist (snd (readme_replacements ly ty ! 0)) (readme_text ly ty s)"
proof -
  let ?R = "readme_replacements ly ty"
  let ?old = "fst (?R ! 0)" and ?new = "snd (?R ! 0)"
  have cut: "?R = (?old, ?new) # drop 1 ?R" by (simp add: readme_replacements_def)
  have old: "?old \<noteq> []" by (simp add: readme_replacements_def)
  have "separate ((?old, ?new) # drop 1 ?R)" using readme_separate [of ly ty] cut by simp
  then have kept: "list_all (\<lambda>(old', new'). old' \<noteq> [] \<and> no_overlap ?new old' \<and> no_overlap old' ?new)
                     (drop 1 ?R)"
    by (rule separate_head_kept)
  have "sublist ?new (replace_all s ?old ?new)"
    using old assms by (rule new_present_replace_all)
  then have "sublist ?new (replace_each (drop 1 ?R) (replace_all s ?old ?new))"
    using kept by (rule present_replace_each)
  moreover have "replace_each ?R s = replace_each (drop 1 ?R) (replace s ?old ?new)"
    by (metis cut replace_each_Cons)
  ultimately show ?thesis using old by (simp add: readme_text_def replace_is_replace_all)
qed

subsection \<open>Cutting a README at every occurrence\<close>

lemma first_match_Some:
  "first_match pairs s = Some k \<Longrightarrow>
   k < length pairs \<and> fst (pairs ! k) \<noteq> [] \<and> prefix (fst (pairs ! k)) s"
proof (induction pairs arbitrary: k)
  case Nil
  then show ?case by simp
next
  case (Cons p pairs)
  obtain old new where p: "p = (old, new)" by (cases p)
  show ?case
  proof (cases "old \<noteq> [] \<and> prefix old s")
    case True
    with Cons.prems p show ?thesis by auto
  next
    case False
    with Cons.prems p obtain k' where "first_match pairs s = Some k'" "k = Suc k'" by auto
    with Cons.IH show ?thesis by simp
  qed
qed

lemma first_match_None:
  "first_match pairs s = None \<Longrightarrow> list_all (\<lambda>(old, new). old = [] \<or> \<not> prefix old s) pairs"
proof (induction pairs)
  case Nil
  show ?case by simp
next
  case (Cons p pairs)
  obtain old new where p: "p = (old, new)" by (cases p)
  with Cons show ?case by (auto split: if_splits)
qed

lemma before_pieces_of: "before pairs (pieces_of pairs s) = s"
proof (induction pairs s rule: pieces_of.induct)
  case (1 pairs)
  show ?case by simp
next
  case (2 pairs c cs)
  show ?case
  proof (cases "first_match pairs (c # cs)")
    case None
    with "2.IH"(1) show ?thesis by simp
  next
    case (Some k)
    then have "prefix (fst (pairs ! k)) (c # cs)" using first_match_Some by blast
    then have "fst (pairs ! k) @ drop (length (fst (pairs ! k))) (c # cs) = c # cs"
      by (metis append_eq_conv_conj prefixE)
    with "2.IH"(2) [OF Some] Some show ?thesis by simp
  qed
qed

lemma only_marked_pieces_of:
  "list_all (\<lambda>(old, new). old \<noteq> []) pairs \<Longrightarrow> only_marked pairs (pieces_of pairs s)"
proof (induction pairs s rule: pieces_of.induct)
  case (1 pairs)
  show ?case by simp
next
  case (2 pairs c cs)
  show ?case
  proof (cases "first_match pairs (c # cs)")
    case None
    then have "list_all (\<lambda>(old, new). old = [] \<or> \<not> prefix old (c # cs)) pairs"
      by (rule first_match_None)
    with "2.prems" have "list_all (\<lambda>(old, new). \<not> prefix old (c # cs)) pairs"
      by (auto simp: list_all_iff)
    with "2.IH"(1) [OF None "2.prems"] None show ?thesis
      by (simp add: before_pieces_of)
  next
    case (Some k)
    then have "k < length pairs" using first_match_Some by blast
    with "2.IH"(2) [OF Some "2.prems"] Some show ?thesis by simp
  qed
qed

lemma no_overlap_incomparable: "no_overlap a b \<Longrightarrow> a \<noteq> [] \<Longrightarrow> incomparable a b"
  by (cases a) simp_all

lemma separate_olds_incomparable:
  assumes "separate pairs" and "i < length pairs" and "k < length pairs" and "i \<noteq> k"
  shows "incomparable (fst (pairs ! i)) (fst (pairs ! k))"
proof (cases "i < k")
  case True
  with assms have "no_overlap (fst (pairs ! k)) (fst (pairs ! i))"
    using separate_nth [of pairs i k] by simp
  moreover from assms have "fst (pairs ! k) \<noteq> []" using separate_nth_nonempty by blast
  ultimately have "incomparable (fst (pairs ! k)) (fst (pairs ! i))"
    by (rule no_overlap_incomparable)
  then show ?thesis by (simp add: incomparable_def)
next
  case False
  with assms(4) have "k < i" by simp
  with assms have "no_overlap (fst (pairs ! i)) (fst (pairs ! k))"
    using separate_nth [of pairs k i] by simp
  moreover from assms have "fst (pairs ! i) \<noteq> []" using separate_nth_nonempty by blast
  ultimately show ?thesis by (rule no_overlap_incomparable)
qed

lemma olds_apart_nth:
  "olds_apart pairs \<Longrightarrow> i < length pairs \<Longrightarrow> k < length pairs \<Longrightarrow>
   no_overlap (tl (fst (pairs ! i))) (fst (pairs ! k))"
  by (simp add: olds_apart_def list_all_length case_prod_beta)

text \<open>Where an old text begins in the README, a slot for it begins.\<close>

lemma occurrence_is_slot:
  assumes sep: "separate pairs" and apart: "olds_apart pairs" and k: "k < length pairs"
  shows "only_marked pairs ps \<Longrightarrow> prefix (fst (pairs ! k)) (drop j (before pairs ps)) \<Longrightarrow>
         slot_at pairs ps j = Some k"
proof (induction ps arbitrary: j)
  case Nil
  from sep k have "fst (pairs ! k) \<noteq> []" by (rule separate_nth_nonempty)
  with Nil show ?case by simp
next
  case (Cons q ps)
  let ?old = "fst (pairs ! k)"
  show ?case
  proof (cases q)
    case (Text t)
    with Cons.prems have starts: "none_starts pairs t (before pairs ps)"
      and rest: "only_marked pairs ps" by simp_all
    show ?thesis
    proof (cases "j < length t")
      case True
      from Cons.prems(2) Text True have "prefix ?old (drop j t @ before pairs ps)" by simp
      moreover from k have "pairs ! k \<in> set pairs" by simp
      ultimately show ?thesis using none_starts_positions [OF starts True] by blast
    next
      case False
      with Cons.prems(2) Text have "prefix ?old (drop (j - length t) (before pairs ps))" by simp
      with Cons.IH [OF rest] False Text show ?thesis by simp
    qed
  next
    case (Slot i)
    with Cons.prems have i: "i < length pairs" and rest: "only_marked pairs ps" by simp_all
    let ?here = "fst (pairs ! i)"
    from sep i have here_ne: "?here \<noteq> []" by (rule separate_nth_nonempty)
    consider "j = 0" | "0 < j" "j < length ?here" | "length ?here \<le> j" by linarith
    then show ?thesis
    proof cases
      case 1
      with Cons.prems(2) Slot have "prefix ?old (?here @ before pairs ps)" by simp
      then have "prefix ?old ?here \<or> prefix ?here ?old" by (rule prefix_append_comparable)
      then have "\<not> incomparable ?here ?old" by (auto simp: incomparable_def)
      then have "i = k" using separate_olds_incomparable [OF sep i k] by blast
      with 1 Slot show ?thesis by simp
    next
      case 2
      then obtain j' where j': "j = Suc j'" by (cases j) auto
      from here_ne obtain c cs where here: "?here = c # cs" by (cases ?here) auto
      from Cons.prems(2) Slot 2 have "prefix ?old (drop j ?here @ before pairs ps)" by simp
      with j' here have "prefix ?old (drop j' (tl ?here) @ before pairs ps)" by simp
      moreover from 2 j' here have "j' < length (tl ?here)" by simp
      moreover have "no_overlap (tl ?here) ?old" using apart i k by (rule olds_apart_nth)
      ultimately show ?thesis using no_overlap_not_prefix by blast
    next
      case 3
      with Cons.prems(2) Slot have "prefix ?old (drop (j - length ?here) (before pairs ps))"
        by simp
      then have "slot_at pairs ps (j - length ?here) = Some k" by (rule Cons.IH [OF rest])
      moreover from here_ne obtain c cs where "?here = c # cs" by (cases ?here) auto
      then have "length ?here = Suc (length cs)" by simp
      with 3 have "j \<noteq> 0" "\<not> j < length ?here" by linarith+
      ultimately show ?thesis using Slot by simp
    qed
  qed
qed

lemma readme_olds_apart: "olds_apart (readme_replacements ly ty)"
  by (simp add: readme_replacements_def olds_apart_def)

lemma readme_olds_nonempty: "list_all (\<lambda>(old, new). old \<noteq> []) (readme_replacements ly ty)"
  by (simp add: readme_replacements_def)

section \<open>The claims\<close>

subsection \<open>Year resolver\<close>

text \<open>
  C8. Whatever the clock shows at later calls, every call of \<^verbatim>\<open>this_year\<close> in a
  run returns the year the clock showed at the first call of the run, and every call of
  \<^verbatim>\<open>last_year\<close> returns that year minus one: both values are computed once and
  the previous year is the current year minus one.
\<close>

theorem year_resolver_memoised:
  "year_calls ((call, now) # calls) empty_cache =
     map (\<lambda>(f, clock). case f of ThisYear \<Rightarrow> now | LastYear \<Rightarrow> now - 1) ((call, now) # calls)"
proof -
  have same: "map (answer now) calls
      = map (\<lambda>(f, clock). case f of ThisYear \<Rightarrow> now | LastYear \<Rightarrow> now - 1) calls"
    by (simp add: answer_def case_prod_beta)
  show ?thesis
  proof (cases call)
    case ThisYear
    obtain v c' where step: "this_year now empty_cache = (v, c')"
      by (cases "this_year now empty_cache")
    with this_year_first [of now] have "v = now" "settled now c'" by simp_all
    with year_calls_settled [of now c' calls] step ThisYear same show ?thesis by simp
  next
    case LastYear
    obtain v c' where step: "last_year now empty_cache = (v, c')"
      by (cases "last_year now empty_cache")
    with last_year_first [of now] have "v = now - 1" "settled now c'" by simp_all
    with year_calls_settled [of now c' calls] step LastYear same show ?thesis by simp
  qed
qed

theorem year_resolver_memoised_witness:
  "year_calls [(LastYear, 2024), (ThisYear, 2025), (LastYear, 2026), (ThisYear, 2027)] empty_cache
     = [2023, 2024, 2023, 2024]"
  using year_resolver_memoised
          [of LastYear 2024 "[(ThisYear, 2025), (LastYear, 2026), (ThisYear, 2027)]"]
  by simp

subsection \<open>Command runner\<close>

text \<open>
  C6, as the code has it. Let the commands of a block be the non-empty lines of the
  dedented block, in their order. A command fails when it holds a NUL character, which
  stops it from being run at all, or when the shell gives it a status other than 0.
  When no command fails, \<^verbatim>\<open>run_commands\<close> prints and then runs every command, in
  order, and returns without an error. Otherwise it prints and runs the commands before
  the first one that fails, prints that one, runs it unless it holds a NUL character,
  and stops there with the error. Nothing else is printed or run: empty lines never are.
\<close>

theorem run_commands_nonempty_in_order:
  assumes cmds: "cmds = filter (\<lambda>l. l \<noteq> []) (splitlines (textwrap_dedent commands))"
  shows "((\<forall>i<length cmds. \<not> fails_at sh (world st) cmds i) \<longrightarrow>
            run_commands sh commands st =
              (None,
               \<lparr>events = events st @ concat (map (\<lambda>c. [Printed c, Ran c]) cmds),
                world = worlds sh (world st) cmds ! length cmds\<rparr>)) \<and>
         (\<forall>k<length cmds.
            fails_at sh (world st) cmds k \<and> (\<forall>i<k. \<not> fails_at sh (world st) cmds i) \<longrightarrow>
            run_commands sh commands st =
              (if CHR 0x00 \<in> set (cmds ! k)
               then (Some (ValueError ''embedded null byte''),
                     \<lparr>events = events st @ concat (map (\<lambda>c. [Printed c, Ran c]) (take k cmds))
                                @ [Printed (cmds ! k)],
                      world = worlds sh (world st) cmds ! k\<rparr>)
               else (Some (CalledProcessError (fst (sh (cmds ! k) (worlds sh (world st) cmds ! k)))
                             (cmds ! k)),
                     \<lparr>events = events st @ concat (map (\<lambda>c. [Printed c, Ran c]) (take k cmds))
                                @ [Printed (cmds ! k), Ran (cmds ! k)],
                      world = worlds sh (world st) cmds ! Suc k\<rparr>)))"
proof -
  have run: "run_commands sh commands st = run_lines sh cmds st"
    unfolding run_commands_def cmds by (simp add: run_lines_blank_skipped)
  have nonempty: "\<forall>c\<in>set cmds. c \<noteq> []" unfolding cmds by simp
  have all_run: "(\<forall>i<length cmds. \<not> fails_at sh (world st) cmds i) \<longrightarrow>
      run_lines sh cmds st =
        (None, \<lparr>events = events st @ announced cmds,
                world = worlds sh (world st) cmds ! length cmds\<rparr>)"
    using run_lines_no_failure [OF nonempty] by blast
  have stops: "\<forall>k<length cmds.
      fails_at sh (world st) cmds k \<and> (\<forall>i<k. \<not> fails_at sh (world st) cmds i) \<longrightarrow>
      run_lines sh cmds st =
        (if CHR 0x00 \<in> set (cmds ! k)
         then (Some (ValueError ''embedded null byte''),
               \<lparr>events = events st @ announced (take k cmds) @ [Printed (cmds ! k)],
                world = worlds sh (world st) cmds ! k\<rparr>)
         else (Some (CalledProcessError (fst (sh (cmds ! k) (worlds sh (world st) cmds ! k)))
                       (cmds ! k)),
               \<lparr>events = events st @ announced (take k cmds) @ [Printed (cmds ! k), Ran (cmds ! k)],
                world = worlds sh (world st) cmds ! Suc k\<rparr>))"
    using run_lines_first_failure [OF nonempty] by blast
  from all_run stops show ?thesis unfolding run announced_def by blast
qed

theorem run_commands_nonempty_in_order_witness:
  "run_commands (\<lambda>c w. (0, Suc w))
     (''    # Create destination repo on GitHub\<newline>''
      @ ''    gh repo create 2024 --private\<newline>''
      @ ''\<newline>''
      @ ''    # Make a bare clone of the repository\<newline>''
      @ ''    git clone --bare https://github.com/NaNoGenMo/2023.git\<newline>''
      @ ''    '')
     \<lparr>events = [], world = 0\<rparr>
   = (None,
      \<lparr>events = [Printed ''# Create destination repo on GitHub'',
                 Ran ''# Create destination repo on GitHub'',
                 Printed ''gh repo create 2024 --private'',
                 Ran ''gh repo create 2024 --private'',
                 Printed ''# Make a bare clone of the repository'',
                 Ran ''# Make a bare clone of the repository'',
                 Printed ''git clone --bare https://github.com/NaNoGenMo/2023.git'',
                 Ran ''git clone --bare https://github.com/NaNoGenMo/2023.git''],
       world = 4\<rparr>) \<and>
   run_commands (\<lambda>c w. (if c = ''git clone --bare https://github.com/NaNoGenMo/2023.git''
                         then 128 else 0, Suc w))
     (''    # Create destination repo on GitHub\<newline>''
      @ ''    gh repo create 2024 --private\<newline>''
      @ ''\<newline>''
      @ ''    # Make a bare clone of the repository\<newline>''
      @ ''    git clone --bare https://github.com/NaNoGenMo/2023.git\<newline>''
      @ ''    '')
     \<lparr>events = [], world = 0\<rparr>
   = (Some (CalledProcessError 128 ''git clone --bare https://github.com/NaNoGenMo/2023.git''),
      \<lparr>events = [Printed ''# Create destination repo on GitHub'',
                 Ran ''# Create destination repo on GitHub'',
                 Printed ''gh repo create 2024 --private'',
                 Ran ''gh repo create 2024 --private'',
                 Printed ''# Make a bare clone of the repository'',
                 Ran ''# Make a bare clone of the repository'',
                 Printed ''git clone --bare https://github.com/NaNoGenMo/2023.git'',
                 Ran ''git clone --bare https://github.com/NaNoGenMo/2023.git''],
       world = 4\<rparr>) \<and>
   run_commands (\<lambda>c w. (0, Suc w))
     (''  true\<newline>'' @ ''\<newline>'' @ ''  # a'' @ [CHR 0x00] @ ''b\<newline>'' @ ''  true\<newline>'')
     \<lparr>events = [], world = 0\<rparr>
   = (Some (ValueError ''embedded null byte''),
      \<lparr>events = [Printed ''true'', Ran ''true'', Printed (''# a'' @ [CHR 0x00] @ ''b'')],
       world = 1\<rparr>)"
proof -
  let ?block = "''    # Create destination repo on GitHub\<newline>''
      @ ''    gh repo create 2024 --private\<newline>''
      @ ''\<newline>''
      @ ''    # Make a bare clone of the repository\<newline>''
      @ ''    git clone --bare https://github.com/NaNoGenMo/2023.git\<newline>''
      @ ''    ''"
  let ?cmds = "[''# Create destination repo on GitHub'', ''gh repo create 2024 --private'',
                ''# Make a bare clone of the repository'',
                ''git clone --bare https://github.com/NaNoGenMo/2023.git'']"
  let ?ok = "\<lambda>(c::string) (w::nat). (0::int, Suc w)"
  let ?bad = "\<lambda>(c::string) (w::nat).
                (if c = ''git clone --bare https://github.com/NaNoGenMo/2023.git''
                 then 128::int else 0, Suc w)"
  let ?st = "\<lparr>events = [], world = 0::nat\<rparr>"
  have cmds: "?cmds = filter (\<lambda>l. l \<noteq> []) (splitlines (textwrap_dedent ?block))"
    by (simp add: textwrap_dedent_def is_indent_char_def splitlines_def
          is_linebreak_def after_break_def)
  have four: "\<And>i. i < length ?cmds \<longleftrightarrow> i = 0 \<or> i = 1 \<or> i = 2 \<or> i = 3" by auto
  have none_fails: "\<forall>i<length ?cmds. \<not> fails_at ?ok (world ?st) ?cmds i"
    unfolding four by (simp add: fails_at_def)
  have first: "run_commands ?ok ?block ?st
      = (None, \<lparr>events = events ?st @ concat (map (\<lambda>c. [Printed c, Ran c]) ?cmds),
                world = worlds ?ok (world ?st) ?cmds ! length ?cmds\<rparr>)"
    using run_commands_nonempty_in_order [OF cmds, of ?ok ?st, THEN conjunct1] none_fails
    by blast
  have k: "3 < length ?cmds" by simp
  have three: "\<And>i. i < (3::nat) \<longleftrightarrow> i = 0 \<or> i = 1 \<or> i = 2" by auto
  have fails: "fails_at ?bad (world ?st) ?cmds 3" by (simp add: fails_at_def)
  have before: "\<forall>i<3. \<not> fails_at ?bad (world ?st) ?cmds i"
    unfolding three by (simp add: fails_at_def)
  have second: "run_commands ?bad ?block ?st
      = (if CHR 0x00 \<in> set (?cmds ! 3)
         then (Some (ValueError ''embedded null byte''),
               \<lparr>events = events ?st @ concat (map (\<lambda>c. [Printed c, Ran c]) (take 3 ?cmds))
                          @ [Printed (?cmds ! 3)],
                world = worlds ?bad (world ?st) ?cmds ! 3\<rparr>)
         else (Some (CalledProcessError (fst (?bad (?cmds ! 3) (worlds ?bad (world ?st) ?cmds ! 3)))
                       (?cmds ! 3)),
               \<lparr>events = events ?st @ concat (map (\<lambda>c. [Printed c, Ran c]) (take 3 ?cmds))
                          @ [Printed (?cmds ! 3), Ran (?cmds ! 3)],
                world = worlds ?bad (world ?st) ?cmds ! Suc 3\<rparr>))"
    using run_commands_nonempty_in_order [OF cmds, of ?bad ?st, THEN conjunct2, rule_format, of 3]
      k fails before by blast
  let ?block3 = "''  true\<newline>'' @ ''\<newline>'' @ ''  # a'' @ [CHR 0x00] @ ''b\<newline>'' @ ''  true\<newline>''"
  let ?cmds3 = "[''true'', ''# a'' @ [CHR 0x00] @ ''b'', ''true'']"
  have cmds3: "?cmds3 = filter (\<lambda>l. l \<noteq> []) (splitlines (textwrap_dedent ?block3))"
    by (simp add: textwrap_dedent_def is_indent_char_def splitlines_def
          is_linebreak_def after_break_def)
  have k3: "1 < length ?cmds3" by simp
  have fails3: "fails_at ?ok (world ?st) ?cmds3 1" by (simp add: fails_at_def)
  have before3: "\<forall>i<1. \<not> fails_at ?ok (world ?st) ?cmds3 i" by (simp add: fails_at_def)
  have third: "run_commands ?ok ?block3 ?st
      = (if CHR 0x00 \<in> set (?cmds3 ! 1)
         then (Some (ValueError ''embedded null byte''),
               \<lparr>events = events ?st @ concat (map (\<lambda>c. [Printed c, Ran c]) (take 1 ?cmds3))
                          @ [Printed (?cmds3 ! 1)],
                world = worlds ?ok (world ?st) ?cmds3 ! 1\<rparr>)
         else (Some (CalledProcessError (fst (?ok (?cmds3 ! 1) (worlds ?ok (world ?st) ?cmds3 ! 1)))
                       (?cmds3 ! 1)),
               \<lparr>events = events ?st @ concat (map (\<lambda>c. [Printed c, Ran c]) (take 1 ?cmds3))
                          @ [Printed (?cmds3 ! 1), Ran (?cmds3 ! 1)],
                world = worlds ?ok (world ?st) ?cmds3 ! Suc 1\<rparr>))"
    using run_commands_nonempty_in_order [OF cmds3, of ?ok ?st, THEN conjunct2, rule_format, of 1]
      k3 fails3 before3 by blast
  from first have a: "run_commands ?ok ?block ?st = (None,
      \<lparr>events = [Printed ''# Create destination repo on GitHub'',
                 Ran ''# Create destination repo on GitHub'',
                 Printed ''gh repo create 2024 --private'',
                 Ran ''gh repo create 2024 --private'',
                 Printed ''# Make a bare clone of the repository'',
                 Ran ''# Make a bare clone of the repository'',
                 Printed ''git clone --bare https://github.com/NaNoGenMo/2023.git'',
                 Ran ''git clone --bare https://github.com/NaNoGenMo/2023.git''],
       world = 4\<rparr>)" by simp
  from second have b: "run_commands ?bad ?block ?st
     = (Some (CalledProcessError 128 ''git clone --bare https://github.com/NaNoGenMo/2023.git''),
      \<lparr>events = [Printed ''# Create destination repo on GitHub'',
                 Ran ''# Create destination repo on GitHub'',
                 Printed ''gh repo create 2024 --private'',
                 Ran ''gh repo create 2024 --private'',
                 Printed ''# Make a bare clone of the repository'',
                 Ran ''# Make a bare clone of the repository'',
                 Printed ''git clone --bare https://github.com/NaNoGenMo/2023.git'',
                 Ran ''git clone --bare https://github.com/NaNoGenMo/2023.git''],
       world = 4\<rparr>)" by simp
  from third have c: "run_commands ?ok ?block3 ?st
     = (Some (ValueError ''embedded null byte''),
      \<lparr>events = [Printed ''true'', Ran ''true'', Printed (''# a'' @ [CHR 0x00] @ ''b'')],
       world = 1\<rparr>)" by simp
  from a b c show ?thesis by blast
qed

text \<open>
  C6, as stated, fails for lines that are blank but not empty. \<^verbatim>\<open>textwrap.dedent\<close>
  empties a whitespace-only line only when a line feed ends it, while
  \<^verbatim>\<open>str.splitlines\<close> also cuts at a carriage return, and the runner skips a line only
  when it is empty. In the block below the line of two spaces is printed and run.
\<close>

theorem run_commands_runs_whitespace_line:
  "run_commands (\<lambda>c w. (0, w)) (''true'' @ [CHR 0x0D] @ ''  '' @ [CHR 0x0D] @ ''true'')
     \<lparr>events = [], world = ()\<rparr>
   = (None,
      \<lparr>events = [Printed ''true'', Ran ''true'', Printed ''  '', Ran ''  '',
                 Printed ''true'', Ran ''true''],
       world = ()\<rparr>)"
  by (simp add: run_commands_def textwrap_dedent_def is_indent_char_def splitlines_def
        is_linebreak_def after_break_def subprocess_run_def print_def)

text \<open>
  C7. When the commands before the \<open>n\<close>-th non-empty line of the block exit with 0 and
  that line is executed (it holds no NUL character) and exits with a status \<open>rc\<close> other
  than 0, \<^verbatim>\<open>run_commands\<close> raises \<^verbatim>\<open>CalledProcessError\<close> with \<open>rc\<close> and the command,
  right after running it: the commands run are the lines up to and including that one,
  and no later line is run.
\<close>

theorem run_commands_abort:
  assumes cmds: "cmds = filter (\<lambda>l. l \<noteq> []) (splitlines (textwrap_dedent commands))"
    and n: "n < length cmds"
    and before_n: "run_lines sh (take n cmds) st = (None, st1)"
    and executed: "CHR 0x00 \<notin> set (cmds ! n)"
    and fails: "sh (cmds ! n) (world st1) = (rc, w)" "rc \<noteq> 0"
  shows "run_commands sh commands st =
           (Some (CalledProcessError rc (cmds ! n)),
            \<lparr>events = events st1 @ [Printed (cmds ! n), Ran (cmds ! n)], world = w\<rparr>) \<and>
         ran (events st1 @ [Printed (cmds ! n), Ran (cmds ! n)]) = ran (events st) @ take (Suc n) cmds"
proof -
  let ?c = "cmds ! n"
  from n cmds have "?c \<in> set (filter (\<lambda>l. l \<noteq> []) (splitlines (textwrap_dedent commands)))"
    using nth_mem by blast
  then have c_ne: "?c \<noteq> []" by simp
  have split: "cmds = take n cmds @ ?c # drop (Suc n) cmds"
    using n by (simp add: id_take_nth_drop)
  have "subprocess_run sh ?c (print ?c st1)
          = (Some (CalledProcessError rc ?c),
             \<lparr>events = events st1 @ [Printed ?c, Ran ?c], world = w\<rparr>)"
    using executed fails by (simp add: subprocess_run_def print_def)
  then have "run_lines sh (?c # drop (Suc n) cmds) st1
          = (Some (CalledProcessError rc ?c),
             \<lparr>events = events st1 @ [Printed ?c, Ran ?c], world = w\<rparr>)"
    using c_ne by simp
  with before_n have "run_lines sh (take n cmds @ ?c # drop (Suc n) cmds) st
          = (Some (CalledProcessError rc ?c),
             \<lparr>events = events st1 @ [Printed ?c, Ran ?c], world = w\<rparr>)"
    by (simp add: run_lines_append)
  with split have "run_lines sh cmds st
          = (Some (CalledProcessError rc ?c),
             \<lparr>events = events st1 @ [Printed ?c, Ran ?c], world = w\<rparr>)"
    by simp
  then have result: "run_commands sh commands st
          = (Some (CalledProcessError rc ?c),
             \<lparr>events = events st1 @ [Printed ?c, Ran ?c], world = w\<rparr>)"
    unfolding run_commands_def cmds by (simp add: run_lines_blank_skipped)
  have nonblank: "filter (\<lambda>l. l \<noteq> []) (take n cmds) = take n cmds"
    unfolding cmds by (rule filter_True) (auto dest: in_set_takeD)
  from run_lines_success_events [OF before_n] nonblank
  have "events st1 = events st @ announced (take n cmds)" by simp
  then have "ran (events st1 @ [Printed ?c, Ran ?c]) = ran (events st) @ take n cmds @ [?c]"
    by (simp add: ran_append ran_announced)
  also have "take n cmds @ [?c] = take (Suc n) cmds"
    using n by (simp add: take_Suc_conv_app_nth)
  finally show ?thesis using result by simp
qed

theorem run_commands_abort_witness:
  "run_commands (\<lambda>c w. (if c = ''gh repo create 2024 --private'' then 1 else 0, Suc w))
     (''    # Create destination repo on GitHub\<newline>''
      @ ''    gh repo create 2024 --private\<newline>''
      @ ''\<newline>''
      @ ''    # Make a bare clone of the repository\<newline>''
      @ ''    git clone --bare https://github.com/NaNoGenMo/2023.git\<newline>''
      @ ''    '')
     \<lparr>events = [], world = 0\<rparr>
   = (Some (CalledProcessError 1 ''gh repo create 2024 --private''),
      \<lparr>events = [Printed ''# Create destination repo on GitHub'',
                 Ran ''# Create destination repo on GitHub'',
                 Printed ''gh repo create 2024 --private'',
                 Ran ''gh repo create 2024 --private''],
       world = 2\<rparr>)"
proof -
  let ?block = "''    # Create destination repo on GitHub\<newline>''
      @ ''    gh repo create 2024 --private\<newline>''
      @ ''\<newline>''
      @ ''    # Make a bare clone of the repository\<newline>''
      @ ''    git clone --bare https://github.com/NaNoGenMo/2023.git\<newline>''
      @ ''    ''"
  let ?sh = "\<lambda>(c::string) (w::nat).
               (if c = ''gh repo create 2024 --private'' then 1::int else 0, Suc w)"
  let ?cmds = "[''# Create destination repo on GitHub'', ''gh repo create 2024 --private'',
                ''# Make a bare clone of the repository'',
                ''git clone --bare https://github.com/NaNoGenMo/2023.git'']"
  let ?st1 = "\<lparr>events = [Printed ''# Create destination repo on GitHub'',
                          Ran ''# Create destination repo on GitHub''], world = Suc 0\<rparr>"
  have cmds: "?cmds = filter (\<lambda>l. l \<noteq> []) (splitlines (textwrap_dedent ?block))"
    by (simp add: textwrap_dedent_def is_indent_char_def splitlines_def
          is_linebreak_def after_break_def)
  have n: "1 < length ?cmds" by simp
  have before_n: "run_lines ?sh (take 1 ?cmds) \<lparr>events = [], world = 0\<rparr> = (None, ?st1)"
    by (simp add: subprocess_run_def print_def)
  have executed: "CHR 0x00 \<notin> set (?cmds ! 1)" by simp
  have fails: "?sh (?cmds ! 1) (world ?st1) = (1, 2)" "(1::int) \<noteq> 0" by simp_all
  from run_commands_abort [OF cmds n before_n executed fails] show ?thesis by simp
qed

subsection \<open>Issue seeder\<close>

text \<open>
  C4. With 2024 as the previous year the body of the Resources issue is the two
  introductory paragraphs, then one link line for each year from 2024 down to 2016, then
  the three fixed link lines for 2015, 2014 and 2013, and nothing else.
\<close>

theorem resources_issue_2024: "issue1_text 2024 =
  ''This is an open issue where you can comment and add resources that might come in handy for NaNoGenMo.\<newline>''
  @ ''\<newline>''
  @ ''There are already a ton of resources on the old resources threads of previous editions:\<newline>''
  @ ''\<newline>''
  @ ''* [2024](https://github.com/NaNoGenMo/2024/issues/1)\<newline>''
  @ ''* [2023](https://github.com/NaNoGenMo/2023/issues/1)\<newline>''
  @ ''* [2022](https://github.com/NaNoGenMo/2022/issues/1)\<newline>''
  @ ''* [2021](https://github.com/NaNoGenMo/2021/issues/1)\<newline>''
  @ ''* [2020](https://github.com/NaNoGenMo/2020/issues/1)\<newline>''
  @ ''* [2019](https://github.com/NaNoGenMo/2019/issues/1)\<newline>''
  @ ''* [2018](https://github.com/NaNoGenMo/2018/issues/1)\<newline>''
  @ ''* [2017](https://github.com/NaNoGenMo/2017/issues/1)\<newline>''
  @ ''* [2016](https://github.com/NaNoGenMo/2016/issues/1)\<newline>''
  @ ''* [2015](https://github.com/dariusk/NaNoGenMo-2015/issues/1)\<newline>''
  @ ''* [2014](https://github.com/dariusk/nanogenmo-2014/issues/1)\<newline>''
  @ ''* [2013](https://github.com/dariusk/NaNoGenMo/issues/11)\<newline>''"
  unfolding issue1_text_def issue1_header range_down_2024
  by (simp add: str_int_years)

text \<open>
  C5. The body of the Press coverage issue for the previous year 2024, as the code
  builds it: the loop runs down to 2016 as it does for the Resources issue, and the fixed
  lines that follow begin with 2016 again, so the year 2016 has a generated line and a
  fixed line.
\<close>

theorem press_issue_2024_lists_2016_twice: "issue2_text 2024 =
   ''Links to previous years:\<newline>''
   @ ''\<newline>''
   @ ''* [2024](https://github.com/NaNoGenMo/2024/issues/2)\<newline>''
   @ ''* [2023](https://github.com/NaNoGenMo/2023/issues/2)\<newline>''
   @ ''* [2022](https://github.com/NaNoGenMo/2022/issues/2)\<newline>''
   @ ''* [2021](https://github.com/NaNoGenMo/2021/issues/2)\<newline>''
   @ ''* [2020](https://github.com/NaNoGenMo/2020/issues/2)\<newline>''
   @ ''* [2019](https://github.com/NaNoGenMo/2019/issues/2)\<newline>''
   @ ''* [2018](https://github.com/NaNoGenMo/2018/issues/2)\<newline>''
   @ ''* [2017](https://github.com/NaNoGenMo/2017/issues/2)\<newline>''
   @ ''* [2016](https://github.com/NaNoGenMo/2016/issues/2)\<newline>''
   @ ''* [2016](https://github.com/NaNoGenMo/2016/issues/5)\<newline>''
   @ ''* [2015](https://github.com/dariusk/NaNoGenMo-2015/issues/9)\<newline>''
   @ ''* [2014](https://github.com/dariusk/NaNoGenMo-2014/issues/92)\<newline>''"
  unfolding issue2_text_def range_down_2024
  by (simp add: str_int_years)

subsection \<open>README updater\<close>

text \<open>
  C2. A README that holds the five previous-year patterns, each once and nowhere else
  (in pieces: each of the slots 0 to 4 once, in any order, and no old text of a pair
  beginning inside the plain text around them), becomes the same pieces with each slot
  holding the current-year text of its pair.
\<close>

theorem readme_five_patterns_replaced:
  assumes "only_marked (readme_replacements ly ty) ps"
    and "sort (slots ps) = [0, 1, 2, 3, 4]"
  shows "readme_text ly ty (before (readme_replacements ly ty) ps)
           = after (readme_replacements ly ty) ps"
  unfolding readme_text_def
  using readme_separate assms(1) by (rule replace_each_marked)

theorem readme_five_patterns_replaced_witness:
  "only_marked (readme_replacements 2023 2024)
     [Slot 0, Text ''\<newline>\<newline>'', Slot 2, Text '' See https://github.com/'', Slot 1,
      Text ''\<newline>\<newline>'', Slot 3, Text ''\<newline>\<newline>'', Slot 4, Text ''\<newline>'']
   \<and> readme_text 2023 2024
        (''# NaNoGenMo 2023\<newline>\<newline>''
         @ ''This is the 2023 edition. See https://github.com/NaNoGenMo/2023/issues?q=label\<newline>\<newline>''
         @ ''* [2022](https://github.com/NaNoGenMo/2022)\<newline>\<newline>''
         @ ''* [2022](https://github.com/NaNoGenMo/2022/issues/1)\<newline>'')
      = ''# NaNoGenMo 2024\<newline>\<newline>''
         @ ''This is the 2024 edition. See https://github.com/NaNoGenMo/2024/issues?q=label\<newline>\<newline>''
         @ ''* [2023](https://github.com/NaNoGenMo/2023)\<newline>''
         @ ''* [2022](https://github.com/NaNoGenMo/2022)\<newline>\<newline>''
         @ ''* [2022](https://github.com/NaNoGenMo/2022/issues/1)\<newline>''
         @ ''* [2023](https://github.com/NaNoGenMo/2023/issues/1)\<newline>''"
proof -
  let ?ps = "[Slot 0, Text ''\<newline>\<newline>'', Slot 2, Text '' See https://github.com/'', Slot 1,
      Text ''\<newline>\<newline>'', Slot 3, Text ''\<newline>\<newline>'', Slot 4, Text ''\<newline>'']"
  have marked: "only_marked (readme_replacements 2023 2024) ?ps"
    by (simp add: readme_2024)
  have once: "sort (slots ?ps) = [0, 1, 2, 3, 4]" by simp
  from readme_five_patterns_replaced [OF marked once] marked show ?thesis
    by (simp add: readme_2024)
qed

text \<open>
  C10. Every occurrence is replaced, not only the first. Cut any README at every
  place where the old text of a pair begins: the cut gives the README back, no old text
  begins in its plain text, and wherever an old text begins in the README a slot for it
  begins. The update is this cut with the new text in every slot. And whatever the
  README is, the result holds no occurrence of the old title, of the old issue-query
  link or of the old edition sentence.
\<close>

theorem readme_every_occurrence_replaced:
  "before (readme_replacements (ty - 1) ty) (pieces_of (readme_replacements (ty - 1) ty) readme)
     = readme \<and>
   only_marked (readme_replacements (ty - 1) ty)
     (pieces_of (readme_replacements (ty - 1) ty) readme) \<and>
   (\<forall>j<length readme. \<forall>k<5.
      prefix (fst (readme_replacements (ty - 1) ty ! k)) (drop j readme) \<longrightarrow>
      slot_at (readme_replacements (ty - 1) ty)
        (pieces_of (readme_replacements (ty - 1) ty) readme) j = Some k) \<and>
   readme_text (ty - 1) ty readme
     = after (readme_replacements (ty - 1) ty) (pieces_of (readme_replacements (ty - 1) ty) readme) \<and>
   (\<forall>k<3. \<not> sublist (fst (readme_replacements (ty - 1) ty ! k)) (readme_text (ty - 1) ty readme))"
proof -
  let ?R = "readme_replacements (ty - 1) ty"
  let ?ps = "pieces_of ?R readme"
  have cut: "before ?R ?ps = readme" by (rule before_pieces_of)
  have marked: "only_marked ?R ?ps"
    using readme_olds_nonempty by (rule only_marked_pieces_of)
  have slots: "\<forall>j<length readme. \<forall>k<5.
      prefix (fst (?R ! k)) (drop j readme) \<longrightarrow> slot_at ?R ?ps j = Some k"
  proof (intro allI impI)
    fix j k :: nat
    assume "k < 5" and "prefix (fst (?R ! k)) (drop j readme)"
    then have "k < length ?R" and "prefix (fst (?R ! k)) (drop j (before ?R ?ps))"
      by (simp_all add: readme_pairs_length cut)
    with readme_separate readme_olds_apart marked show "slot_at ?R ?ps j = Some k"
      using occurrence_is_slot by blast
  qed
  have "replace_each ?R (before ?R ?ps) = after ?R ?ps"
    using readme_separate marked by (rule replace_each_marked)
  then have filled: "readme_text (ty - 1) ty readme = after ?R ?ps"
    by (simp add: readme_text_def cut)
  have gone: "\<forall>k<3. \<not> sublist (fst (?R ! k)) (readme_text (ty - 1) ty readme)"
    using readme_first_three_gone by blast
  from cut marked slots filled gone show ?thesis by blast
qed

theorem readme_every_occurrence_replaced_witness:
  "readme_text 2023 2024
     (''# NaNoGenMo 2023 and # NaNoGenMo 2023\<newline>'' @ ''* [2022](https://github.com/NaNoGenMo/2022)\<newline>'')
     = ''# NaNoGenMo 2024 and # NaNoGenMo 2024\<newline>''
       @ ''* [2023](https://github.com/NaNoGenMo/2023)\<newline>''
       @ ''* [2022](https://github.com/NaNoGenMo/2022)\<newline>'' \<and>
   slot_at (readme_replacements 2023 2024)
     (pieces_of (readme_replacements 2023 2024)
        (''# NaNoGenMo 2023 and # NaNoGenMo 2023\<newline>'' @ ''* [2022](https://github.com/NaNoGenMo/2022)\<newline>''))
     21 = Some 0 \<and>
   \<not> sublist ''# NaNoGenMo 2023''
       (readme_text 2023 2024
          (''# NaNoGenMo 2023 and # NaNoGenMo 2023\<newline>'' @ ''* [2022](https://github.com/NaNoGenMo/2022)\<newline>''))"
proof -
  let ?r = "''# NaNoGenMo 2023 and # NaNoGenMo 2023\<newline>'' @ ''* [2022](https://github.com/NaNoGenMo/2022)\<newline>''"
  note all = readme_every_occurrence_replaced [of 2024 ?r]
  have pieces: "after (readme_replacements 2023 2024) (pieces_of (readme_replacements 2023 2024) ?r)
      = ''# NaNoGenMo 2024 and # NaNoGenMo 2024\<newline>''
       @ ''* [2023](https://github.com/NaNoGenMo/2023)\<newline>''
       @ ''* [2022](https://github.com/NaNoGenMo/2022)\<newline>''"
    by (simp add: readme_2024)
  from all have "readme_text (2024 - 1) 2024 ?r
      = after (readme_replacements (2024 - 1) 2024) (pieces_of (readme_replacements (2024 - 1) 2024) ?r)"
    by blast
  with pieces have filled: "readme_text 2023 2024 ?r
      = ''# NaNoGenMo 2024 and # NaNoGenMo 2024\<newline>''
       @ ''* [2023](https://github.com/NaNoGenMo/2023)\<newline>''
       @ ''* [2022](https://github.com/NaNoGenMo/2022)\<newline>''"
    by simp
  from all have at: "\<forall>j<length ?r. \<forall>k<5.
      prefix (fst (readme_replacements (2024 - 1) 2024 ! k)) (drop j ?r) \<longrightarrow>
      slot_at (readme_replacements (2024 - 1) 2024)
        (pieces_of (readme_replacements (2024 - 1) 2024) ?r) j = Some k"
    by blast
  have "slot_at (readme_replacements (2024 - 1) 2024)
        (pieces_of (readme_replacements (2024 - 1) 2024) ?r) 21 = Some 0"
    using at [rule_format, of 21 0] by (simp add: readme_2024)
  then have second: "slot_at (readme_replacements 2023 2024)
        (pieces_of (readme_replacements 2023 2024) ?r) 21 = Some 0" by simp
  from all have gone: "\<forall>k<3. \<not> sublist (fst (readme_replacements (2024 - 1) 2024 ! k))
                     (readme_text (2024 - 1) 2024 ?r)" by blast
  have "\<not> sublist (fst (readme_replacements (2024 - 1) 2024 ! 0)) (readme_text (2024 - 1) 2024 ?r)"
    using gone [rule_format, of 0] by simp
  then have "\<not> sublist ''# NaNoGenMo 2023'' (readme_text 2023 2024 ?r)"
    by (simp add: readme_2024)
  with filled second show ?thesis by blast
qed

text \<open>
  C9. A pair whose old text does not occur in the README does nothing: its
  \<^verbatim>\<open>replace\<close> returns the text it is given, and the update is the update without
  that pair. A README with none of the five old texts is returned as it is. The update
  is a function to strings: it has no error to return.
\<close>

theorem readme_absent_pattern_is_noop:
  "(k < 5 \<and> \<not> sublist (fst (readme_replacements ly ty ! k)) readme \<longrightarrow>
      replace (replace_each (take k (readme_replacements ly ty)) readme)
          (fst (readme_replacements ly ty ! k)) (snd (readme_replacements ly ty ! k))
        = replace_each (take k (readme_replacements ly ty)) readme \<and>
      readme_text ly ty readme
        = replace_each (take k (readme_replacements ly ty) @ drop (Suc k) (readme_replacements ly ty))
            readme) \<and>
   (list_all (\<lambda>(old, new). \<not> sublist old readme) (readme_replacements ly ty) \<longrightarrow>
      readme_text ly ty readme = readme)"
proof (intro conjI impI)
  let ?R = "readme_replacements ly ty"
  assume a: "k < 5 \<and> \<not> sublist (fst (?R ! k)) readme"
  then have k: "k < length ?R" by (simp add: readme_pairs_length)
  have "\<not> sublist (fst (?R ! k)) (replace_each (take k ?R) readme)"
    using a separate_earlier_untouched [OF readme_separate k] absent_replace_each by blast
  then show "replace (replace_each (take k ?R) readme) (fst (?R ! k)) (snd (?R ! k))
        = replace_each (take k ?R) readme"
    by (rule replace_absent)
  show "readme_text ly ty readme = replace_each (take k ?R @ drop (Suc k) ?R) readme"
    unfolding readme_text_def using readme_separate k a by (simp add: replace_each_skip_absent)
next
  assume "list_all (\<lambda>(old, new). \<not> sublist old readme) (readme_replacements ly ty)"
  then show "readme_text ly ty readme = readme"
    unfolding readme_text_def by (rule replace_each_absent)
qed

theorem readme_absent_pattern_is_noop_witness:
  "\<not> sublist (fst (readme_replacements 2023 2024 ! 2))
       (''# NaNoGenMo 2023\<newline>* [2022](https://github.com/NaNoGenMo/2022)\<newline>'') \<and>
   readme_text 2023 2024 (''# NaNoGenMo 2023\<newline>* [2022](https://github.com/NaNoGenMo/2022)\<newline>'')
     = replace_each
         [(''# NaNoGenMo 2023'', ''# NaNoGenMo 2024''),
          (''NaNoGenMo/2023/issues?q=label'', ''NaNoGenMo/2024/issues?q=label''),
          (''* [2022](https://github.com/NaNoGenMo/2022)'',
           ''* [2023](https://github.com/NaNoGenMo/2023)\<newline>* [2022](https://github.com/NaNoGenMo/2022)''),
          (''* [2022](https://github.com/NaNoGenMo/2022/issues/1)'',
           ''* [2022](https://github.com/NaNoGenMo/2022/issues/1)\<newline>* [2023](https://github.com/NaNoGenMo/2023/issues/1)'')]
         (''# NaNoGenMo 2023\<newline>* [2022](https://github.com/NaNoGenMo/2022)\<newline>'') \<and>
   list_all (\<lambda>(old, new). \<not> sublist old ''National Novel Generation Month'')
     (readme_replacements 2023 2024) \<and>
   readme_text 2023 2024 ''National Novel Generation Month'' = ''National Novel Generation Month''"
proof -
  let ?r = "''# NaNoGenMo 2023\<newline>* [2022](https://github.com/NaNoGenMo/2022)\<newline>''"
  let ?n = "''National Novel Generation Month''"
  have absent: "\<not> sublist (fst (readme_replacements 2023 2024 ! 2)) ?r"
    by (simp add: readme_2024 sublist_Cons_right)
  have none: "list_all (\<lambda>(old, new). \<not> sublist old ?n) (readme_replacements 2023 2024)"
    by (simp add: readme_2024 sublist_Cons_right)
  from readme_absent_pattern_is_noop [of 2 2023 2024 ?r] absent
  have "readme_text 2023 2024 ?r
     = replace_each (take 2 (readme_replacements 2023 2024) @ drop (Suc 2) (readme_replacements 2023 2024)) ?r"
    by simp
  then have skipped: "readme_text 2023 2024 ?r
     = replace_each
         [(''# NaNoGenMo 2023'', ''# NaNoGenMo 2024''),
          (''NaNoGenMo/2023/issues?q=label'', ''NaNoGenMo/2024/issues?q=label''),
          (''* [2022](https://github.com/NaNoGenMo/2022)'',
           ''* [2023](https://github.com/NaNoGenMo/2023)\<newline>* [2022](https://github.com/NaNoGenMo/2022)''),
          (''* [2022](https://github.com/NaNoGenMo/2022/issues/1)'',
           ''* [2022](https://github.com/NaNoGenMo/2022/issues/1)\<newline>* [2023](https://github.com/NaNoGenMo/2023/issues/1)'')]
         ?r"
    by (simp add: readme_2024)
  from readme_absent_pattern_is_noop [of 0 2023 2024 ?n] none
  have "readme_text 2023 2024 ?n = ?n" by blast
  with absent none skipped show ?thesis by blast
qed

text \<open>
  C3. With 2023 as the previous and 2024 as the current year, the README that
  \<^verbatim>\<open>update_readme\<close> writes back for a README holding \<^verbatim>\<open># NaNoGenMo 2023\<close>
  holds \<^verbatim>\<open># NaNoGenMo 2024\<close> and holds \<^verbatim>\<open># NaNoGenMo 2023\<close> nowhere, whatever the
  git commands that follow do.
\<close>

theorem update_readme_title_2023:
  assumes "sublist ''# NaNoGenMo 2023'' readme"
  shows "sublist ''# NaNoGenMo 2024'' (fst (update_readme sh 2023 2024 readme st)) \<and>
         \<not> sublist ''# NaNoGenMo 2023'' (fst (update_readme sh 2023 2024 readme st))"
proof -
  have old: "fst (readme_replacements 2023 2024 ! 0) = ''# NaNoGenMo 2023''"
    and new: "snd (readme_replacements 2023 2024 ! 0) = ''# NaNoGenMo 2024''"
    by (simp_all add: readme_2024)
  from assms old have "sublist (fst (readme_replacements 2023 2024 ! 0)) readme" by simp
  then have "sublist (snd (readme_replacements 2023 2024 ! 0)) (readme_text 2023 2024 readme)"
    by (rule readme_title_replaced)
  with new have present: "sublist ''# NaNoGenMo 2024'' (readme_text 2023 2024 readme)" by simp
  have "\<not> sublist (fst (readme_replacements (2024 - 1) 2024 ! 0)) (readme_text (2024 - 1) 2024 readme)"
    by (rule readme_first_three_gone) simp
  with old have "\<not> sublist ''# NaNoGenMo 2023'' (readme_text 2023 2024 readme)" by simp
  with present show ?thesis by (simp add: update_readme_written)
qed

theorem update_readme_title_2023_witness:
  "sublist ''# NaNoGenMo 2023'' (''# NaNoGenMo 2023\<newline>\<newline>This is the 2023 edition.\<newline>'') \<and>
   fst (update_readme (\<lambda>c w. (0, Suc w)) 2023 2024
          (''# NaNoGenMo 2023\<newline>\<newline>This is the 2023 edition.\<newline>'')
          \<lparr>events = [], world = 0\<rparr>)
     = ''# NaNoGenMo 2024\<newline>\<newline>This is the 2024 edition.\<newline>'' \<and>
   sublist ''# NaNoGenMo 2024'' (''# NaNoGenMo 2024\<newline>\<newline>This is the 2024 edition.\<newline>'') \<and>
   \<not> sublist ''# NaNoGenMo 2023'' (''# NaNoGenMo 2024\<newline>\<newline>This is the 2024 edition.\<newline>'')"
proof -
  let ?readme = "''# NaNoGenMo 2023\<newline>\<newline>This is the 2023 edition.\<newline>''"
  have has: "sublist ''# NaNoGenMo 2023'' ?readme" by simp
  have written: "fst (update_readme (\<lambda>c w. (0, Suc w)) 2023 2024 ?readme \<lparr>events = [], world = 0::nat\<rparr>)
      = ''# NaNoGenMo 2024\<newline>\<newline>This is the 2024 edition.\<newline>''"
    by (simp add: update_readme_written readme_text_def replace_each_def readme_2024 replace_def)
  from update_readme_title_2023 [OF has, of "\<lambda>c w. (0, Suc w)" "\<lparr>events = [], world = 0::nat\<rparr>"]
    has written show ?thesis by simp
qed

text \<open>
  C1, as the code has it. A second pass of the update changes nothing if and only if
  the README holds neither list pattern (pair 3, the list of repositories, and pair 4,
  the list of resource threads). The new text of each of these two pairs contains its
  old text, so a list pattern that is present is found again by the second pass, which
  inserts the previous year's entry once more. The title, the issue-query link and the
  edition sentence are gone after the first pass.
\<close>

theorem second_pass_noop_iff_no_list_pattern:
  "readme_text (ty - 1) ty (readme_text (ty - 1) ty readme) = readme_text (ty - 1) ty readme
   \<longleftrightarrow> \<not> sublist (fst (readme_replacements (ty - 1) ty ! 3)) readme
        \<and> \<not> sublist (fst (readme_replacements (ty - 1) ty ! 4)) readme"
proof
  assume same: "readme_text (ty - 1) ty (readme_text (ty - 1) ty readme) = readme_text (ty - 1) ty readme"
  show "\<not> sublist (fst (readme_replacements (ty - 1) ty ! 3)) readme
        \<and> \<not> sublist (fst (readme_replacements (ty - 1) ty ! 4)) readme"
  proof (rule ccontr)
    assume "\<not> (\<not> sublist (fst (readme_replacements (ty - 1) ty ! 3)) readme
        \<and> \<not> sublist (fst (readme_replacements (ty - 1) ty ! 4)) readme)"
    then have "sublist (fst (readme_replacements (ty - 1) ty ! 3)) readme
        \<or> sublist (fst (readme_replacements (ty - 1) ty ! 4)) readme" by blast
    then have "sublist (fst (readme_replacements (ty - 1) ty ! 3)) (readme_text (ty - 1) ty readme)
        \<or> sublist (fst (readme_replacements (ty - 1) ty ! 4)) (readme_text (ty - 1) ty readme)"
      by (rule readme_anchor_survives)
    then have "count_list (readme_text (ty - 1) ty readme) CHR ''*''
        < count_list (readme_text (ty - 1) ty (readme_text (ty - 1) ty readme)) CHR ''*''"
      by (rule readme_text_grows)
    with same show False by simp
  qed
next
  assume "\<not> sublist (fst (readme_replacements (ty - 1) ty ! 3)) readme
        \<and> \<not> sublist (fst (readme_replacements (ty - 1) ty ! 4)) readme"
  then show "readme_text (ty - 1) ty (readme_text (ty - 1) ty readme) = readme_text (ty - 1) ty readme"
    using second_pass_noop_without_list_patterns by blast
qed

theorem second_pass_noop_iff_no_list_pattern_witness:
  "readme_text 2023 2024
     (readme_text 2023 2024 (''# NaNoGenMo 2023\<newline>\<newline>This is the 2023 edition.\<newline>''))
     = readme_text 2023 2024 (''# NaNoGenMo 2023\<newline>\<newline>This is the 2023 edition.\<newline>'') \<and>
   readme_text 2023 2024
     (readme_text 2023 2024 (''* [2022](https://github.com/NaNoGenMo/2022)\<newline>''))
     \<noteq> readme_text 2023 2024 (''* [2022](https://github.com/NaNoGenMo/2022)\<newline>'')"
proof -
  let ?plain = "''# NaNoGenMo 2023\<newline>\<newline>This is the 2023 edition.\<newline>''"
  let ?list = "''* [2022](https://github.com/NaNoGenMo/2022)\<newline>''"
  have "\<not> sublist (fst (readme_replacements (2024 - 1) 2024 ! 3)) ?plain
      \<and> \<not> sublist (fst (readme_replacements (2024 - 1) 2024 ! 4)) ?plain"
    by (simp add: readme_2024 sublist_Cons_right)
  then have plain: "readme_text (2024 - 1) 2024 (readme_text (2024 - 1) 2024 ?plain)
      = readme_text (2024 - 1) 2024 ?plain"
    by (rule second_pass_noop_iff_no_list_pattern [of 2024 ?plain, THEN iffD2])
  have "sublist (fst (readme_replacements (2024 - 1) 2024 ! 3)) ?list"
    by (simp add: readme_2024)
  then have "\<not> (\<not> sublist (fst (readme_replacements (2024 - 1) 2024 ! 3)) ?list
      \<and> \<not> sublist (fst (readme_replacements (2024 - 1) 2024 ! 4)) ?list)"
    by blast
  then have list: "readme_text (2024 - 1) 2024 (readme_text (2024 - 1) 2024 ?list)
      \<noteq> readme_text (2024 - 1) 2024 ?list"
    using second_pass_noop_iff_no_list_pattern [of 2024 ?list] by blast
  from plain list show ?thesis by simp
qed

text \<open>
  C1, as stated, fails: the README below holds exactly the five previous-year patterns;
  the first pass gives the second text and the second pass gives the third, in which
  the two 2023 list entries stand twice.
\<close>

theorem second_pass_counterexample:
  "only_marked (readme_replacements 2023 2024)
     [Slot 0, Text ''\<newline>\<newline>'', Slot 2, Text '' See https://github.com/'', Slot 1,
      Text ''\<newline>\<newline>'', Slot 3, Text ''\<newline>\<newline>'', Slot 4, Text ''\<newline>''] \<and>
   sort (slots
     [Slot 0, Text ''\<newline>\<newline>'', Slot 2, Text '' See https://github.com/'', Slot 1,
      Text ''\<newline>\<newline>'', Slot 3, Text ''\<newline>\<newline>'', Slot 4, Text ''\<newline>''])
     = [0, 1, 2, 3, 4] \<and>
   before (readme_replacements 2023 2024)
     [Slot 0, Text ''\<newline>\<newline>'', Slot 2, Text '' See https://github.com/'', Slot 1,
      Text ''\<newline>\<newline>'', Slot 3, Text ''\<newline>\<newline>'', Slot 4, Text ''\<newline>'']
     = ''# NaNoGenMo 2023\<newline>\<newline>''
         @ ''This is the 2023 edition. See https://github.com/NaNoGenMo/2023/issues?q=label\<newline>\<newline>''
         @ ''* [2022](https://github.com/NaNoGenMo/2022)\<newline>\<newline>''
         @ ''* [2022](https://github.com/NaNoGenMo/2022/issues/1)\<newline>'' \<and>
   readme_text 2023 2024
        (''# NaNoGenMo 2023\<newline>\<newline>''
         @ ''This is the 2023 edition. See https://github.com/NaNoGenMo/2023/issues?q=label\<newline>\<newline>''
         @ ''* [2022](https://github.com/NaNoGenMo/2022)\<newline>\<newline>''
         @ ''* [2022](https://github.com/NaNoGenMo/2022/issues/1)\<newline>'')
     = ''# NaNoGenMo 2024\<newline>\<newline>''
         @ ''This is the 2024 edition. See https://github.com/NaNoGenMo/2024/issues?q=label\<newline>\<newline>''
         @ ''* [2023](https://github.com/NaNoGenMo/2023)\<newline>''
         @ ''* [2022](https://github.com/NaNoGenMo/2022)\<newline>\<newline>''
         @ ''* [2022](https://github.com/NaNoGenMo/2022/issues/1)\<newline>''
         @ ''* [2023](https://github.com/NaNoGenMo/2023/issues/1)\<newline>'' \<and>
   readme_text 2023 2024
        (''# NaNoGenMo 2024\<newline>\<newline>''
         @ ''This is the 2024 edition. See https://github.com/NaNoGenMo/2024/issues?q=label\<newline>\<newline>''
         @ ''* [2023](https://github.com/NaNoGenMo/2023)\<newline>''
         @ ''* [2022](https://github.com/NaNoGenMo/2022)\<newline>\<newline>''
         @ ''* [2022](https://github.com/NaNoGenMo/2022/issues/1)\<newline>''
         @ ''* [2023](https://github.com/NaNoGenMo/2023/issues/1)\<newline>'')
     = ''# NaNoGenMo 2024\<newline>\<newline>''
         @ ''This is the 2024 edition. See https://github.com/NaNoGenMo/2024/issues?q=label\<newline>\<newline>''
         @ ''* [2023](https://github.com/NaNoGenMo/2023)\<newline>''
         @ ''* [2023](https://github.com/NaNoGenMo/2023)\<newline>''
         @ ''* [2022](https://github.com/NaNoGenMo/2022)\<newline>\<newline>''
         @ ''* [2022](https://github.com/NaNoGenMo/2022/issues/1)\<newline>''
         @ ''* [2023](https://github.com/NaNoGenMo/2023/issues/1)\<newline>''
         @ ''* [2023](https://github.com/NaNoGenMo/2023/issues/1)\<newline>'' \<and>
   readme_text 2023 2024
     (readme_text 2023 2024
        (''# NaNoGenMo 2023\<newline>\<newline>''
         @ ''This is the 2023 edition. See https://github.com/NaNoGenMo/2023/issues?q=label\<newline>\<newline>''
         @ ''* [2022](https://github.com/NaNoGenMo/2022)\<newline>\<newline>''
         @ ''* [2022](https://github.com/NaNoGenMo/2022/issues/1)\<newline>''))
   \<noteq> readme_text 2023 2024
        (''# NaNoGenMo 2023\<newline>\<newline>''
         @ ''This is the 2023 edition. See https://github.com/NaNoGenMo/2023/issues?q=label\<newline>\<newline>''
         @ ''* [2022](https://github.com/NaNoGenMo/2022)\<newline>\<newline>''
         @ ''* [2022](https://github.com/NaNoGenMo/2022/issues/1)\<newline>'')"
proof -
  let ?R = "readme_replacements 2023 2024"
  let ?ps = "[Slot 0, Text ''\<newline>\<newline>'', Slot 2, Text '' See https://github.com/'', Slot 1,
      Text ''\<newline>\<newline>'', Slot 3, Text ''\<newline>\<newline>'', Slot 4, Text ''\<newline>'']"
  let ?qs = "[Text (''# NaNoGenMo 2024\<newline>\<newline>''
         @ ''This is the 2024 edition. See https://github.com/NaNoGenMo/2024/issues?q=label\<newline>\<newline>''
         @ ''* [2023](https://github.com/NaNoGenMo/2023)\<newline>''), Slot 3, Text ''\<newline>\<newline>'', Slot 4,
         Text ''\<newline>* [2023](https://github.com/NaNoGenMo/2023/issues/1)\<newline>'']"
  let ?readme = "''# NaNoGenMo 2023\<newline>\<newline>''
         @ ''This is the 2023 edition. See https://github.com/NaNoGenMo/2023/issues?q=label\<newline>\<newline>''
         @ ''* [2022](https://github.com/NaNoGenMo/2022)\<newline>\<newline>''
         @ ''* [2022](https://github.com/NaNoGenMo/2022/issues/1)\<newline>''"
  let ?once = "''# NaNoGenMo 2024\<newline>\<newline>''
         @ ''This is the 2024 edition. See https://github.com/NaNoGenMo/2024/issues?q=label\<newline>\<newline>''
         @ ''* [2023](https://github.com/NaNoGenMo/2023)\<newline>''
         @ ''* [2022](https://github.com/NaNoGenMo/2022)\<newline>\<newline>''
         @ ''* [2022](https://github.com/NaNoGenMo/2022/issues/1)\<newline>''
         @ ''* [2023](https://github.com/NaNoGenMo/2023/issues/1)\<newline>''"
  let ?twice = "''# NaNoGenMo 2024\<newline>\<newline>''
         @ ''This is the 2024 edition. See https://github.com/NaNoGenMo/2024/issues?q=label\<newline>\<newline>''
         @ ''* [2023](https://github.com/NaNoGenMo/2023)\<newline>''
         @ ''* [2023](https://github.com/NaNoGenMo/2023)\<newline>''
         @ ''* [2022](https://github.com/NaNoGenMo/2022)\<newline>\<newline>''
         @ ''* [2022](https://github.com/NaNoGenMo/2022/issues/1)\<newline>''
         @ ''* [2023](https://github.com/NaNoGenMo/2023/issues/1)\<newline>''
         @ ''* [2023](https://github.com/NaNoGenMo/2023/issues/1)\<newline>''"
  have marked: "only_marked ?R ?ps" by (simp add: readme_2024)
  have marked_once: "only_marked ?R ?qs" by (simp add: readme_2024)
  have each_once: "sort (slots ?ps) = [0, 1, 2, 3, 4]" by simp
  have shape: "before ?R ?ps = ?readme" by (simp add: readme_2024)
  have "readme_text 2023 2024 (before ?R ?ps) = after ?R ?ps"
    unfolding readme_text_def using readme_separate marked by (rule replace_each_marked)
  then have once: "readme_text 2023 2024 ?readme = ?once" by (simp add: readme_2024)
  have "readme_text 2023 2024 (before ?R ?qs) = after ?R ?qs"
    unfolding readme_text_def using readme_separate marked_once by (rule replace_each_marked)
  then have twice: "readme_text 2023 2024 ?once = ?twice" by (simp add: readme_2024)
  have "?twice \<noteq> ?once" by simp
  then have "readme_text 2023 2024 (readme_text 2023 2024 ?readme) \<noteq> readme_text 2023 2024 ?readme"
    by (simp only: once twice not_False_eq_True)
  with marked each_once shape once twice show ?thesis by blast
qed

end
